theory Spec2Isabelle
  imports Complex_Main
begin

section \<open>JavaScript strings\<close>

text \<open>
  Strings are \<^typ>\<open>string\<close> (lists of characters).  The helpers below are the
  \<^verbatim>\<open>String.prototype\<close> methods the sources call, each with the behaviour the
  language gives it on every input, the empty string included.
\<close>

definition startsWith :: "string \<Rightarrow> string \<Rightarrow> bool" where
  "startsWith s p = (take (length p) s = p)"

definition endsWith :: "string \<Rightarrow> string \<Rightarrow> bool" where
  "endsWith s p = (length p \<le> length s \<and> drop (length s - length p) s = p)"

text \<open>\<^verbatim>\<open>s.includes(sub)\<close>: \<^verbatim>\<open>sub\<close> occurs in \<^verbatim>\<open>s\<close> as a contiguous run.\<close>

fun includes_str :: "string \<Rightarrow> string \<Rightarrow> bool" where
  "includes_str [] sub = (sub = [])"
| "includes_str (c # cs) sub = (startsWith (c # cs) sub \<or> includes_str cs sub)"

text \<open>
  \<^verbatim>\<open>s.split(d)\<close> for a one-character separator.  The result is never empty:
  \<^verbatim>\<open>''.split('/')\<close> is \<^verbatim>\<open>['']\<close> and \<^verbatim>\<open>'/a'.split('/')\<close> is \<^verbatim>\<open>['', 'a']\<close>.
  The empty-list branch of the \<^verbatim>\<open>case\<close> is never taken.
\<close>

fun splitOn :: "char \<Rightarrow> string \<Rightarrow> string list" where
  "splitOn d [] = [[]]"
| "splitOn d (c # cs) =
     (if c = d then [] # splitOn d cs
      else (case splitOn d cs of [] \<Rightarrow> [[c]] | w # ws \<Rightarrow> (c # w) # ws))"

text \<open>\<^verbatim>\<open>s.split('/').filter(Boolean)\<close>: the non-empty pieces between slashes.\<close>

definition segments :: "string \<Rightarrow> string list" where
  "segments s = filter (\<lambda>w. w \<noteq> []) (splitOn (CHR ''/'') s)"

text \<open>
  \<^verbatim>\<open>seg.startsWith('{') && seg.endsWith('}')\<close>: the test every structural
  comparison of the repository uses for a placeholder segment.
\<close>

definition isParamSegment :: "string \<Rightarrow> bool" where
  "isParamSegment seg = (startsWith seg ''{'' \<and> endsWith seg ''}'')"

text \<open>
  \<^verbatim>\<open>key.includes('{') && key.includes('}')\<close>: the test the repository uses
  everywhere to tell a templated endpoint key from a concrete one.
\<close>

definition isTemplated :: "string \<Rightarrow> bool" where
  "isTemplated e = (includes_str e ''{'' \<and> includes_str e ''}'')"

text \<open>
  \<^verbatim>\<open>endpoint.split(' ', 2)\<close> destructured as \<^verbatim>\<open>[method, path]\<close>: the method is
  the text before the first space, the path the text between the first and the second
  space, and \<^verbatim>\<open>undefined\<close> (\<^term>\<open>None\<close>) when the endpoint has no space.
\<close>

definition splitSpace2 :: "string \<Rightarrow> string \<times> string option" where
  "splitSpace2 e =
     (case splitOn (CHR '' '') e of
        [] \<Rightarrow> ([], None)
      | [m] \<Rightarrow> (m, None)
      | m # p # rest \<Rightarrow> (m, Some p))"

definition methodOf :: "string \<Rightarrow> string" where
  "methodOf e = fst (splitSpace2 e)"

text \<open>
  Calling \<^verbatim>\<open>.split\<close> or \<^verbatim>\<open>.replace\<close> on an \<^verbatim>\<open>undefined\<close> path throws a
  \<^verbatim>\<open>TypeError\<close>; it is the only exception the modelled code can raise by itself.
\<close>

datatype error = TypeError

section \<open>The OpenAPI document and path patterns (src/src/types/index.ts)\<close>

record schemaObject =
  s_type :: "string option"
  s_format :: "string option"
  s_pattern :: "string option"
  s_enum :: "string list option"

text \<open>
  The \<^verbatim>\<open>enum\<close> of a schema holds strings or numbers; the code only reads
  \<^verbatim>\<open>enum.map(String)\<close>, so the list holds the values already printed as strings.
\<close>

record parameterObject =
  p_name :: "string option"
  p_schema :: "schemaObject option"
  p_ref :: "string option"

record operationObject =
  o_parameters :: "parameterObject list option"

record pathItem =
  pi_parameters :: "parameterObject list option"
  pi_get :: "operationObject option"
  pi_post :: "operationObject option"
  pi_put :: "operationObject option"
  pi_delete :: "operationObject option"
  pi_patch :: "operationObject option"
  pi_options :: "operationObject option"
  pi_head :: "operationObject option"

text \<open>
  \<^verbatim>\<open>paths\<close> is a JavaScript object: an association list in the order
  \<^verbatim>\<open>Object.entries\<close> enumerates it (an object has no repeated key).  A path item is
  optional because the code tests it (\<^verbatim>\<open>if (!pathItem) continue\<close>): \<^term>\<open>None\<close> is a
  null entry.  \<^verbatim>\<open>paths\<close> itself is optional because the code tests
  \<^verbatim>\<open>apiSpec?.paths\<close>.
\<close>

record openAPIDocument =
  paths :: "(string \<times> pathItem option) list option"
  components_parameters :: "(string \<times> parameterObject) list option"

text \<open>
  A \<^verbatim>\<open>RegExp\<close> object is known to the sources only through two calls:
  \<^verbatim>\<open>re.test(s)\<close> and \<^verbatim>\<open>s.replace(re, replacement)\<close>.  The regular-expression
  engine is not part of the repository, so a regex is the pair of these two behaviours,
  \<^term>\<open>None\<close> being a call that throws, and every theorem below holds for all of them.
  The model reads a regex as a function of its argument: a pattern with the \<^verbatim>\<open>g\<close> or
  \<^verbatim>\<open>y\<close> flag, whose \<^verbatim>\<open>test\<close> also depends on the previous call, is outside it.
  \<^verbatim>\<open>new RegExp(source, flags)\<close> is a parameter of the functions that call it
  (\<^term>\<open>None\<close>: the constructor throws a \<^verbatim>\<open>SyntaxError\<close>).
\<close>

record regex =
  rtest :: "string \<Rightarrow> bool option"
  rreplace :: "string \<Rightarrow> string \<Rightarrow> string option"

type_synonym regexEngine = "string \<Rightarrow> string \<Rightarrow> regex option"

record pathPattern =
  pattern :: regex
  template :: string
  priority :: "int option"

section \<open>normalizePath (path-normalizer: src/unnamed/part_005, lines 278 to 420)\<close>

definition normalizedInputPath :: "string \<Rightarrow> string" where
  "normalizedInputPath path = (if startsWith path ''/'' then path else ''/'' @ path)"

text \<open>
  \<^verbatim>\<open>apiSpec?.paths && apiSpec.paths[k]\<close> is truthy: the document and its paths exist
  and \<^verbatim>\<open>k\<close> is a key with a non-null path item.  The keys looked up start with a slash,
  so no inherited property of \<^verbatim>\<open>Object.prototype\<close> answers the lookup.
\<close>

definition specHasPath :: "openAPIDocument option \<Rightarrow> string \<Rightarrow> bool" where
  "specHasPath apiSpec k =
     (case apiSpec of
        None \<Rightarrow> False
      | Some d \<Rightarrow>
          (case paths d of
             None \<Rightarrow> False
           | Some ps \<Rightarrow> (case map_of ps k of Some (Some item) \<Rightarrow> True | _ \<Rightarrow> False)))"

text \<open>
  The inner loop of step 1.5 (lines 314 to 329), run once the segment counts are equal;
  the last equation is the unequal-length case the caller excludes.
\<close>

fun segmentsMatch :: "string list \<Rightarrow> string list \<Rightarrow> bool" where
  "segmentsMatch [] [] = True"
| "segmentsMatch (specSegment # ss) (pathSegment # ps) =
     (if isParamSegment specSegment then segmentsMatch ss ps
      else if specSegment \<noteq> pathSegment then False
      else segmentsMatch ss ps)"
| "segmentsMatch _ _ = False"

text \<open>The loop over \<^verbatim>\<open>Object.entries(apiSpec.paths)\<close> (lines 301 to 337).\<close>

fun structuralLoop :: "string list \<Rightarrow> (string \<times> pathItem option) list \<Rightarrow> string option" where
  "structuralLoop pathSegments [] = None"
| "structuralLoop pathSegments ((specPath, item) # rest) =
     (if item = None then structuralLoop pathSegments rest
      else if length pathSegments \<noteq> length (segments specPath)
        then structuralLoop pathSegments rest
      else if segmentsMatch (segments specPath) pathSegments then Some specPath
      else structuralLoop pathSegments rest)"

definition structuralStep :: "openAPIDocument option \<Rightarrow> string \<Rightarrow> string option" where
  "structuralStep apiSpec n =
     (case apiSpec of
        None \<Rightarrow> None
      | Some d \<Rightarrow>
          (case paths d of
             None \<Rightarrow> None
           | Some ps \<Rightarrow> structuralLoop (segments n) ps))"

text \<open>
  \<^verbatim>\<open>[...customPatterns].filter(...).sort((a, b) => (b.priority || 0) - (a.priority || 0))\<close>.
  The filter keeps every entry of the declared type.  \<^verbatim>\<open>Array.prototype.sort\<close> is
  stable, and so is \<^const>\<open>sort_key\<close>; a stable sort has one result.
\<close>

definition priorityOf :: "pathPattern \<Rightarrow> int" where
  "priorityOf p = (case priority p of None \<Rightarrow> 0 | Some n \<Rightarrow> n)"

definition sortedPatterns :: "pathPattern list \<Rightarrow> pathPattern list" where
  "sortedPatterns customPatterns = sort_key (\<lambda>p. - priorityOf p) customPatterns"

text \<open>
  The loop over the sorted patterns (lines 350 to 406).  An entry with an empty template
  is skipped (\<^verbatim>\<open>!template\<close>); the other guards of lines 353 to 368 hold for every entry
  of the declared type.  A pattern whose \<^verbatim>\<open>test\<close> or \<^verbatim>\<open>replace\<close> throws is skipped
  by the \<^verbatim>\<open>catch\<close>.  Both branches after the substitution (the result is a spec key,
  or not) return the substituted string; they differ in the log line only.
\<close>

fun tryPatterns :: "string \<Rightarrow> pathPattern list \<Rightarrow> string option" where
  "tryPatterns n [] = None"
| "tryPatterns n (patternObj # rest) =
     (if template patternObj = [] then tryPatterns n rest
      else (case rtest (pattern patternObj) n of
              Some True \<Rightarrow>
                (case rreplace (pattern patternObj) n (template patternObj) of
                   Some result \<Rightarrow> Some result
                 | None \<Rightarrow> tryPatterns n rest)
            | _ \<Rightarrow> tryPatterns n rest))"

text \<open>
  The whole function.  An absent \<^verbatim>\<open>customPatterns\<close> argument behaves as the empty
  list: both take the branch that only logs.
\<close>

definition normalizePath :: "string \<Rightarrow> openAPIDocument option \<Rightarrow> pathPattern list \<Rightarrow> string" where
  "normalizePath path apiSpec customPatterns =
     (if path = [] then []
      else let n = normalizedInputPath path in
        if specHasPath apiSpec n then n
        else (case structuralStep apiSpec n of
                Some specPath \<Rightarrow> specPath
              | None \<Rightarrow>
                  (if customPatterns \<noteq> [] then
                     (case tryPatterns n (sortedPatterns customPatterns) of
                        Some result \<Rightarrow> result
                      | None \<Rightarrow> n)
                   else n)))"

text \<open>
  Vocabulary for the statements about \<^const>\<open>normalizePath\<close>: a spec key matches a path
  structurally (equal segment counts and the loop of step 1.5 succeeds); a pattern
  matches a path (the loop of step 2 would return on it) and accepts it with a given
  substitution result; the keys of a document.
\<close>

definition structurallyMatches :: "string \<Rightarrow> string \<Rightarrow> bool" where
  "structurallyMatches specPath n =
     (length (segments n) = length (segments specPath) \<and>
      segmentsMatch (segments specPath) (segments n))"

definition matchesPath :: "pathPattern \<Rightarrow> string \<Rightarrow> bool" where
  "matchesPath p n = (template p \<noteq> [] \<and> rtest (pattern p) n = Some True \<and>
      rreplace (pattern p) n (template p) \<noteq> None)"

definition accepts :: "pathPattern \<Rightarrow> string \<Rightarrow> string \<Rightarrow> bool" where
  "accepts p n r = (template p \<noteq> [] \<and> rtest (pattern p) n = Some True \<and>
      rreplace (pattern p) n (template p) = Some r)"

definition specKeys :: "openAPIDocument option \<Rightarrow> string list" where
  "specKeys apiSpec = (case apiSpec of None \<Rightarrow> [] | Some d \<Rightarrow> (case paths d of None \<Rightarrow> [] | Some ps \<Rightarrow> map fst ps))"

section \<open>Request tracking (axios-interceptors: src/unnamed/part_004)\<close>

text \<open>
  \<^verbatim>\<open>endpointMatchesTemplate\<close> (lines 208 to 250).  The methods are compared before
  either path is touched, so two endpoints of different methods never raise.  The loop
  over the segments is the loop of \<^const>\<open>segmentsMatch\<close>: a placeholder segment of the
  template continues on both of its branches, any other segment must be equal.
\<close>

definition endpointMatchesTemplate :: "string \<Rightarrow> string \<Rightarrow> error + bool" where
  "endpointMatchesTemplate concreteEndpoint templateEndpoint =
     (if methodOf concreteEndpoint \<noteq> methodOf templateEndpoint then Inr False
      else (case snd (splitSpace2 concreteEndpoint) of
              None \<Rightarrow> Inl TypeError
            | Some concretePath \<Rightarrow>
                (case snd (splitSpace2 templateEndpoint) of
                   None \<Rightarrow> Inl TypeError
                 | Some templatePath \<Rightarrow>
                     (if length (segments concretePath) \<noteq> length (segments templatePath)
                        then Inr False
                      else Inr (segmentsMatch (segments templatePath) (segments concretePath))))))"

text \<open>
  \<^verbatim>\<open>hitEndpoints\<close> is a \<^verbatim>\<open>Set<string>\<close>: a list without repetition in insertion
  order, with \<^verbatim>\<open>add\<close> and \<^verbatim>\<open>delete\<close>.
\<close>

definition setAdd :: "string list \<Rightarrow> string \<Rightarrow> string list" where
  "setAdd s k = (if k \<in> set s then s else s @ [k])"

definition setDelete :: "string list \<Rightarrow> string \<Rightarrow> string list" where
  "setDelete s k = filter (\<lambda>e. e \<noteq> k) s"

text \<open>
  The two scans of the request interceptor (lines 129 to 141 and 151 to 164).  An
  exception inside a scan leaves through the \<^verbatim>\<open>catch\<close> of line 193.
\<close>

fun endpointsToRemove :: "string \<Rightarrow> string list \<Rightarrow> error + string list" where
  "endpointsToRemove key [] = Inr []"
| "endpointsToRemove key (existingEndpoint # rest) =
     (if isTemplated existingEndpoint then endpointsToRemove key rest
      else (case endpointMatchesTemplate existingEndpoint key of
              Inl err \<Rightarrow> Inl err
            | Inr b \<Rightarrow>
                (case endpointsToRemove key rest of
                   Inl err \<Rightarrow> Inl err
                 | Inr found \<Rightarrow> Inr (if b then existingEndpoint # found else found))))"

fun hasMatchingTemplate :: "string \<Rightarrow> string list \<Rightarrow> error + bool" where
  "hasMatchingTemplate key [] = Inr False"
| "hasMatchingTemplate key (existingEndpoint # rest) =
     (if \<not> isTemplated existingEndpoint then hasMatchingTemplate key rest
      else (case endpointMatchesTemplate key existingEndpoint of
              Inl err \<Rightarrow> Inl err
            | Inr True \<Rightarrow> Inr True
            | Inr False \<Rightarrow> hasMatchingTemplate key rest))"

text \<open>
  Lines 121 to 170 with the enclosing \<^verbatim>\<open>try\<close>: the set after one observation.  When a
  scan throws, the set is what it was at that moment (the templated key already added,
  nothing deleted; a concrete key not added).
\<close>

definition recordHit :: "string list \<Rightarrow> string \<Rightarrow> string list" where
  "recordHit hitEndpoints key =
     (if isTemplated key then
        (case endpointsToRemove key (setAdd hitEndpoints key) of
           Inl err \<Rightarrow> setAdd hitEndpoints key
         | Inr found \<Rightarrow> foldl setDelete (setAdd hitEndpoints key) found)
      else
        (case hasMatchingTemplate key hitEndpoints of
           Inl err \<Rightarrow> hitEndpoints
         | Inr True \<Rightarrow> hitEndpoints
         | Inr False \<Rightarrow> setAdd hitEndpoints key))"

text \<open>
  The key the interceptor builds (line 111) from the upper-cased method and the normalized
  path, one observation, and a run of observations from the empty set.
\<close>

definition endpointKey :: "string \<Rightarrow> string \<Rightarrow> string" where
  "endpointKey httpMethod normalizedPath = httpMethod @ '' '' @ normalizedPath"

definition trackRequest :: "string list \<Rightarrow> string \<times> string \<Rightarrow> string list" where
  "trackRequest hitEndpoints obs = recordHit hitEndpoints (endpointKey (fst obs) (snd obs))"

definition trackAll :: "(string \<times> string) list \<Rightarrow> string list" where
  "trackAll observations = foldl trackRequest [] observations"

text \<open>The invariant of the hit set, with the fact that makes every comparison defined.\<close>

definition dedupInvariant :: "string list \<Rightarrow> bool" where
  "dedupInvariant S =
     ((\<forall>e \<in> set S. CHR '' '' \<in> set e) \<and>
      (\<forall>t \<in> set S. \<forall>c \<in> set S. isTemplated t \<longrightarrow> \<not> isTemplated c \<longrightarrow>
          endpointMatchesTemplate c t = Inr False))"

section \<open>Report generation (src/src/lib/report-generator.ts)\<close>

text \<open>
  \<^verbatim>\<open>path.replace(/\{[^}]+\}/g, '{PARAM}')\<close>: from left to right, an opening brace followed
  by at least one character other than a closing brace and then a closing brace becomes
  \<^verbatim>\<open>{PARAM}\<close>; the scan resumes after the closing brace.
\<close>

function replaceParams :: "string \<Rightarrow> string" where
  "replaceParams [] = []"
| "replaceParams (c # cs) =
     (if c = CHR ''{'' \<and> takeWhile (\<lambda>x. x \<noteq> CHR ''}'') cs \<noteq> [] \<and>
         dropWhile (\<lambda>x. x \<noteq> CHR ''}'') cs \<noteq> []
      then ''{PARAM}'' @ replaceParams (tl (dropWhile (\<lambda>x. x \<noteq> CHR ''}'') cs))
      else c # replaceParams cs)"
  by pat_completeness auto
termination
proof (relation "measure length")
  fix c :: char and cs :: string
  have "length (dropWhile (\<lambda>x. x \<noteq> CHR ''}'') cs) \<le> length cs"
    by (rule length_dropWhile_le)
  then show "(tl (dropWhile (\<lambda>x. x \<noteq> CHR ''}'') cs), c # cs) \<in> measure length"
    by simp
qed auto


text \<open>\<^verbatim>\<open>s.replace(/\/+/g, '/')\<close>: every run of slashes becomes one slash.\<close>

fun collapseSlashes :: "string \<Rightarrow> string" where
  "collapseSlashes (c # d # cs) =
     (if c = CHR ''/'' \<and> d = CHR ''/'' then collapseSlashes (d # cs)
      else c # collapseSlashes (d # cs))"
| "collapseSlashes cs = cs"

text \<open>The malformed-placeholder test of lines 69 and 100 to 104.\<close>

definition isMalformed :: "string \<Rightarrow> bool" where
  "isMalformed s = (includes_str s ''}{'' \<or> includes_str s ''}}'' \<or> includes_str s ''{{'')"

record endpointPattern =
  ep_pattern :: string
  ep_replace :: string

text \<open>
  The loop over the patterns (lines 82 to 97).  Everything inside the \<^verbatim>\<open>try\<close> that
  throws (the constructor, \<^verbatim>\<open>test\<close>, \<^verbatim>\<open>replace\<close>) leaves the path as it was.
\<close>

fun applyPatterns :: "regexEngine \<Rightarrow> string \<Rightarrow> endpointPattern list \<Rightarrow> string" where
  "applyPatterns newRegExp normalizedPath [] = normalizedPath"
| "applyPatterns newRegExp normalizedPath (p # rest) =
     applyPatterns newRegExp
       (case newRegExp (ep_pattern p) [] of
          None \<Rightarrow> normalizedPath
        | Some rx \<Rightarrow>
            (case rtest rx normalizedPath of
               Some True \<Rightarrow>
                 (case rreplace rx normalizedPath (''{'' @ ep_replace p @ ''}'') of
                    None \<Rightarrow> normalizedPath
                  | Some replaced \<Rightarrow> collapseSlashes replaced)
             | _ \<Rightarrow> normalizedPath))
       rest"

text \<open>
  A \<^verbatim>\<open>Map\<close> in insertion order: \<^verbatim>\<open>set\<close> on a present key replaces the value in place,
  on a new key appends.
\<close>

fun mapSet :: "(string \<times> 'v) list \<Rightarrow> string \<Rightarrow> 'v \<Rightarrow> (string \<times> 'v) list" where
  "mapSet [] k v = [(k, v)]"
| "mapSet ((k', v') # m) k v = (if k' = k then (k, v) # m else (k', v') # mapSet m k v)"

definition mapHas :: "(string \<times> 'v) list \<Rightarrow> string \<Rightarrow> bool" where
  "mapHas m k = (k \<in> fst ` set m)"

text \<open>
  The body of the loop of \<^verbatim>\<open>normalizeEndpoints\<close> (lines 67 to 123) in two steps: the
  structure key and the normalized endpoint of one input endpoint (\<^term>\<open>None\<close> when the
  endpoint is skipped), and the update of the map.
\<close>

definition normalizedForm ::
  "regexEngine \<Rightarrow> endpointPattern list \<Rightarrow> string \<Rightarrow> (string \<times> string) option" where
  "normalizedForm newRegExp patterns endpoint =
     (if isMalformed endpoint then None
      else (case snd (splitSpace2 endpoint) of
              None \<Rightarrow> None
            | Some path \<Rightarrow>
                (if path = [] then None
                 else
                   (let substituted = applyPatterns newRegExp path patterns;
                        normalizedPath = (if isMalformed substituted then path else substituted)
                    in Some (methodOf endpoint @ '' '' @ replaceParams normalizedPath,
                             methodOf endpoint @ '' '' @ normalizedPath)))))"

definition normalizeStep ::
  "regexEngine \<Rightarrow> endpointPattern list \<Rightarrow> (string \<times> string) list \<Rightarrow> string \<Rightarrow> (string \<times> string) list" where
  "normalizeStep newRegExp patterns normalizedEndpoints endpoint =
     (case normalizedForm newRegExp patterns endpoint of
        None \<Rightarrow> normalizedEndpoints
      | Some (structKey, normalizedEndpoint) \<Rightarrow>
          (if isTemplated normalizedEndpoint
           then mapSet normalizedEndpoints structKey normalizedEndpoint
           else if \<not> mapHas normalizedEndpoints structKey
           then mapSet normalizedEndpoints structKey normalizedEndpoint
           else normalizedEndpoints))"

definition normalizeEndpoints :: "regexEngine \<Rightarrow> string list \<Rightarrow> endpointPattern list \<Rightarrow> string list" where
  "normalizeEndpoints newRegExp endpoints patterns =
     (if patterns = [] then endpoints
      else map snd (foldl (normalizeStep newRegExp patterns) [] endpoints))"

text \<open>Vocabulary for the proofs: every value of the map is the normalized form of an endpoint.\<close>

definition formsOnly :: "regexEngine \<Rightarrow> endpointPattern list \<Rightarrow> (string \<times> string) list \<Rightarrow> bool" where
  "formsOnly E pats m = (\<forall>k v. map_of m k = Some v \<longrightarrow> (\<exists>e. normalizedForm E pats e = Some (k, v)))"

subsection \<open>Server errors\<close>

record serverErrorRecord =
  se_count :: int
  se_statusCodes :: "(string \<times> int) list"
  se_lastError :: "string option"

record errorGroup =
  g_endpoints :: "string list"
  g_records :: "serverErrorRecord list"




text \<open>
  A status-code histogram is an object from status strings to counts; a missing entry
  reads as zero (\<^verbatim>\<open>statusCodes[status] || 0\<close>).  The list keeps the entries in the order
  they were added; JavaScript enumerates the integer-like keys of an object in ascending
  order, so the statements below read a histogram through \<^verbatim>\<open>histLookup\<close> only, or on
  keys added in ascending order.
\<close>

definition histLookup :: "(string \<times> int) list \<Rightarrow> string \<Rightarrow> int" where
  "histLookup h s = (case map_of h s of None \<Rightarrow> 0 | Some n \<Rightarrow> n)"

definition histAdd :: "(string \<times> int) list \<Rightarrow> string \<times> int \<Rightarrow> (string \<times> int) list" where
  "histAdd h entry = mapSet h (fst entry) (histLookup h (fst entry) + snd entry)"




text \<open>
  The second loop (lines 352 to 378): the representative of a group and its merged
  record.  \<^verbatim>\<open>lastError\<close> is set once, from \<^verbatim>\<open>group.records[0]\<close>, and the loop over the
  records never assigns it.
\<close>

definition targetEndpoint :: "errorGroup \<Rightarrow> string" where
  "targetEndpoint grp =
     (case find isTemplated (g_endpoints grp) of
        Some templatedEndpoint \<Rightarrow> templatedEndpoint
      | None \<Rightarrow> hd (g_endpoints grp))"

definition mergedRecord :: "errorGroup \<Rightarrow> serverErrorRecord" where
  "mergedRecord grp =
     \<lparr>se_count = foldl (\<lambda>n record. n + se_count record) 0 (g_records grp),
      se_statusCodes = foldl (\<lambda>h record. foldl histAdd h (se_statusCodes record)) [] (g_records grp),
      se_lastError =
        Some (case g_records grp of
                [] \<Rightarrow> []
              | first # rest \<Rightarrow> (case se_lastError first of None \<Rightarrow> [] | Some msg \<Rightarrow> msg))\<rparr>"



subsection \<open>Coverage\<close>













section \<open>generatePathPatterns (openapi-processor: src/unnamed/part_006, lines 263 to 414)\<close>

text \<open>A backslash, which a string literal of the logic cannot hold.\<close>

definition bs :: string where
  "bs = [CHR 0x5C]"

text \<open>
  \<^verbatim>\<open>[...templatePath.matchAll(/{([^}]+)}/g)].map((match) => match[1])\<close>: the names
  between braces, found as \<^const>\<open>replaceParams\<close> finds them.
\<close>

function paramNames :: "string \<Rightarrow> string list" where
  "paramNames [] = []"
| "paramNames (c # cs) =
     (if c = CHR ''{'' \<and> takeWhile (\<lambda>x. x \<noteq> CHR ''}'') cs \<noteq> [] \<and>
         dropWhile (\<lambda>x. x \<noteq> CHR ''}'') cs \<noteq> []
      then takeWhile (\<lambda>x. x \<noteq> CHR ''}'') cs # paramNames (tl (dropWhile (\<lambda>x. x \<noteq> CHR ''}'') cs))
      else paramNames cs)"
  by pat_completeness auto
termination
proof (relation "measure length")
  fix c :: char and cs :: string
  have "length (dropWhile (\<lambda>x. x \<noteq> CHR ''}'') cs) \<le> length cs"
    by (rule length_dropWhile_le)
  then show "(tl (dropWhile (\<lambda>x. x \<noteq> CHR ''}'') cs), c # cs) \<in> measure length"
    by simp
qed auto

text \<open>
  The parameters of a path item (lines 298 to 309): those of the path, then those of
  the operations in the order \<^verbatim>\<open>get, post, put, delete, patch, options, head\<close>.
\<close>

definition operationParameters :: "operationObject option \<Rightarrow> parameterObject list" where
  "operationParameters operation =
     (case operation of
        None \<Rightarrow> []
      | Some oper \<Rightarrow> (case o_parameters oper of None \<Rightarrow> [] | Some ps \<Rightarrow> ps))"

definition allParameters :: "pathItem \<Rightarrow> parameterObject list" where
  "allParameters item =
     (case pi_parameters item of None \<Rightarrow> [] | Some ps \<Rightarrow> ps) @
     operationParameters (pi_get item) @ operationParameters (pi_post item) @
     operationParameters (pi_put item) @ operationParameters (pi_delete item) @
     operationParameters (pi_patch item) @ operationParameters (pi_options item) @
     operationParameters (pi_head item)"

text \<open>
  The schema information of one parameter name (lines 326 to 353): the first parameter
  of that name, its own schema, or else the schema of the component its
  \<^verbatim>\<open>$ref\<close> names (\<^verbatim>\<open>$ref.split('/').pop()\<close>).
\<close>

definition refName :: "string \<Rightarrow> string" where
  "refName ref = last (splitOn (CHR ''/'') ref)"

definition paramInfo ::
  "(string \<times> parameterObject) list \<Rightarrow> parameterObject list \<Rightarrow> string \<Rightarrow> schemaObject option" where
  "paramInfo parameterDefinitions allParams paramName =
     (case find (\<lambda>p. p_name p = Some paramName) allParams of
        None \<Rightarrow> None
      | Some paramDef \<Rightarrow>
          (case p_schema paramDef of
             Some schema \<Rightarrow> Some schema
           | None \<Rightarrow>
               (case p_ref paramDef of
                  None \<Rightarrow> None
                | Some ref \<Rightarrow>
                    (if ref = [] \<or> refName ref = [] then None
                     else (case map_of parameterDefinitions (refName ref) of
                             None \<Rightarrow> None
                           | Some refParamDef \<Rightarrow> p_schema refParamDef)))))"

text \<open>\<^verbatim>\<open>xs.join(sep)\<close> and \<^verbatim>\<open>s.toLowerCase()\<close> on ASCII letters.\<close>

fun joinWith :: "string \<Rightarrow> string list \<Rightarrow> string" where
  "joinWith sep [] = []"
| "joinWith sep [x] = x"
| "joinWith sep (x # y # ys) = x @ sep @ joinWith sep (y # ys)"

definition toLowerChar :: "char \<Rightarrow> char" where
  "toLowerChar c =
     (case map_of (zip ''ABCDEFGHIJKLMNOPQRSTUVWXYZ'' ''abcdefghijklmnopqrstuvwxyz'') c of
        None \<Rightarrow> c
      | Some l \<Rightarrow> l)"

definition toLowerCase :: "string \<Rightarrow> string" where
  "toLowerCase s = map toLowerChar s"

text \<open>The segment matchers of lines 361 to 384, as the source writes them.\<close>

definition genericMatcher :: string where
  "genericMatcher = ''([^/]+)''"

definition digitsMatcher :: string where
  "digitsMatcher = ''('' @ bs @ ''d+)''"

definition uuidMatcher :: string where
  "uuidMatcher = ''([0-9a-f]{8}-[0-9a-f]{4}-[0-9a-f]{4}-[0-9a-f]{4}-[0-9a-f]{12})''"

definition dateMatcher :: string where
  "dateMatcher = ''('' @ bs @ ''d{4}-'' @ bs @ ''d{2}-'' @ bs @ ''d{2})''"

definition dateTimeMatcher :: string where
  "dateTimeMatcher =
     ''('' @ bs @ ''d{4}-'' @ bs @ ''d{2}-'' @ bs @ ''d{2}T'' @ bs @ ''d{2}:'' @ bs @ ''d{2}:'' @ bs @ ''d{2}('' @
     bs @ ''.'' @ bs @ ''d+)?(Z|[+-]'' @ bs @ ''d{2}:'' @ bs @ ''d{2}))''"

definition idMatcher :: string where
  "idMatcher =
     ''([0-9a-f]{24}|[0-9a-f]{8}-[0-9a-f]{4}-[0-9a-f]{4}-[0-9a-f]{4}-[0-9a-f]{12}|'' @ bs @ ''d+)''"

text \<open>The choice of lines 360 to 385.\<close>

definition paramPattern :: "schemaObject option \<Rightarrow> string \<Rightarrow> string" where
  "paramPattern info paramName =
     (case info of
        None \<Rightarrow> genericMatcher
      | Some i \<Rightarrow>
          (if s_pattern i \<noteq> None \<and> s_pattern i \<noteq> Some [] then ''('' @ the (s_pattern i) @ '')''
           else if s_enum i \<noteq> None \<and> s_enum i \<noteq> Some [] then ''('' @ joinWith ''|'' (the (s_enum i)) @ '')''
           else if s_type i = Some ''integer'' \<or> s_type i = Some ''number'' then digitsMatcher
           else if s_format i = Some ''uuid'' then uuidMatcher
           else if s_format i = Some ''date'' then dateMatcher
           else if s_format i = Some ''date-time'' then dateTimeMatcher
           else if s_type i = Some ''string'' \<and> includes_str (toLowerCase paramName) ''id'' then idMatcher
           else genericMatcher))"

text \<open>
  The loop of lines 359 to 389: the regex built from the name replaces every
  \<^verbatim>\<open>{name}\<close> of the pattern string.  An exception reaches the \<^verbatim>\<open>catch\<close> of line 405.
\<close>

fun substituteParams ::
  "regexEngine \<Rightarrow> (string \<Rightarrow> schemaObject option) \<Rightarrow> string \<Rightarrow> string list \<Rightarrow> string option" where
  "substituteParams newRegExp info patternString [] = Some patternString"
| "substituteParams newRegExp info patternString (paramName # rest) =
     (case newRegExp (bs @ ''{'' @ paramName @ bs @ ''}'') ''g'' of
        None \<Rightarrow> None
      | Some rx \<Rightarrow>
          (case rreplace rx patternString (paramPattern (info paramName) paramName) of
             None \<Rightarrow> None
           | Some replaced \<Rightarrow> substituteParams newRegExp info replaced rest))"

text \<open>
  Lines 392 to 402: every slash escaped, the anchors, the constructor, and the pattern
  object with priority 50.
\<close>

definition escapeSlashes :: "string \<Rightarrow> string" where
  "escapeSlashes s = concat (map (\<lambda>c. if c = CHR ''/'' then bs @ ''/'' else [c]) s)"

definition patternSource ::
  "regexEngine \<Rightarrow> (string \<times> parameterObject) list \<Rightarrow> string \<Rightarrow> pathItem \<Rightarrow> string option" where
  "patternSource newRegExp parameterDefinitions templatePath item =
     (case substituteParams newRegExp (paramInfo parameterDefinitions (allParameters item))
             templatePath (paramNames templatePath) of
        None \<Rightarrow> None
      | Some patternString \<Rightarrow> Some (''^'' @ escapeSlashes patternString @ ''$''))"

definition patternFor ::
  "regexEngine \<Rightarrow> (string \<times> parameterObject) list \<Rightarrow> string \<Rightarrow> pathItem \<Rightarrow> pathPattern option" where
  "patternFor newRegExp parameterDefinitions templatePath item =
     (case patternSource newRegExp parameterDefinitions templatePath item of
        None \<Rightarrow> None
      | Some src \<Rightarrow>
          (case newRegExp src [] of
             None \<Rightarrow> None
           | Some rx \<Rightarrow> Some \<lparr>pattern = rx, template = templatePath, priority = Some 50\<rparr>))"

text \<open>The loop over the spec paths (lines 283 to 410) and the function.\<close>

fun patternsLoop ::
  "regexEngine \<Rightarrow> (string \<times> parameterObject) list \<Rightarrow> (string \<times> pathItem option) list \<Rightarrow> pathPattern list" where
  "patternsLoop newRegExp parameterDefinitions [] = []"
| "patternsLoop newRegExp parameterDefinitions ((templatePath, item) # rest) =
     (if \<not> includes_str templatePath ''{'' then patternsLoop newRegExp parameterDefinitions rest
      else (case item of
              None \<Rightarrow> patternsLoop newRegExp parameterDefinitions rest
            | Some pathItem \<Rightarrow>
                (case patternFor newRegExp parameterDefinitions templatePath pathItem of
                   None \<Rightarrow> patternsLoop newRegExp parameterDefinitions rest
                 | Some p \<Rightarrow> p # patternsLoop newRegExp parameterDefinitions rest)))"

definition generatePathPatterns :: "regexEngine \<Rightarrow> openAPIDocument option \<Rightarrow> pathPattern list" where
  "generatePathPatterns newRegExp apiSpec =
     (case apiSpec of
        None \<Rightarrow> []
      | Some d \<Rightarrow>
          (case paths d of
             None \<Rightarrow> []
           | Some ps \<Rightarrow>
               patternsLoop newRegExp
                 (case components_parameters d of None \<Rightarrow> [] | Some defs \<Rightarrow> defs) ps))"






section \<open>Example inputs\<close>

text \<open>
  Documents, schemas and patterns used in the closed examples.  A path item without
  parameters or operations:
\<close>

definition emptyPathItem :: pathItem where
  "emptyPathItem = \<lparr>pi_parameters = None, pi_get = None, pi_post = None, pi_put = None,
     pi_delete = None, pi_patch = None, pi_options = None, pi_head = None\<rparr>"

definition specWithPaths :: "string list \<Rightarrow> openAPIDocument" where
  "specWithPaths ks = \<lparr>paths = Some (map (\<lambda>k. (k, Some emptyPathItem)) ks), components_parameters = None\<rparr>"





text \<open>
  Regular expressions of the examples, each given by the behaviour JavaScript has for it.
  \<^verbatim>\<open>anchoredRegex\<close> is a pattern \<^verbatim>\<open>^...$\<close> without flags whose language is the
  given predicate, used with replacement strings that hold no dollar sign: it replaces
  the whole string when it matches.  \<^verbatim>\<open>usersDigits\<close> is the language of
  \<^verbatim>\<open>^\/users\/\d+$\<close> and \<^verbatim>\<open>usersAny\<close> that of \<^verbatim>\<open>^\/users\/([^\/]+)$\<close>.
\<close>

definition anchoredRegex :: "(string \<Rightarrow> bool) \<Rightarrow> regex" where
  "anchoredRegex L = \<lparr>rtest = (\<lambda>s. Some (L s)), rreplace = (\<lambda>s r. Some (if L s then r else s))\<rparr>"

definition isDigit :: "char \<Rightarrow> bool" where
  "isDigit c = (c \<in> set ''0123456789'')"

definition usersDigits :: "string \<Rightarrow> bool" where
  "usersDigits s = (take 7 s = ''/users/'' \<and> drop 7 s \<noteq> [] \<and> list_all isDigit (drop 7 s))"

definition usersAny :: "string \<Rightarrow> bool" where
  "usersAny s = (take 7 s = ''/users/'' \<and> drop 7 s \<noteq> [] \<and> CHR ''/'' \<notin> set (drop 7 s))"

definition customUsers :: pathPattern where
  "customUsers = \<lparr>pattern = anchoredRegex usersDigits, template = ''/people/{pid}'', priority = Some 100\<rparr>"

definition specDerivedUsers :: pathPattern where
  "specDerivedUsers = \<lparr>pattern = anchoredRegex usersAny, template = ''/users/{id}'', priority = Some 50\<rparr>"

definition learnedUsers :: pathPattern where
  "learnedUsers = \<lparr>pattern = anchoredRegex usersDigits, template = ''/users/{user_id}'', priority = Some 30\<rparr>"

definition exactly :: "string \<Rightarrow> string \<Rightarrow> pathPattern" where
  "exactly s t = \<lparr>pattern = anchoredRegex (\<lambda>x. x = s), template = t, priority = Some 100\<rparr>"

text \<open>
  A pattern made of letters, digits and underscores matches itself: without flags
  \<^verbatim>\<open>replace\<close> rewrites its first occurrence, with the \<^verbatim>\<open>g\<close> flag every occurrence.
\<close>

fun replaceFirst :: "string \<Rightarrow> string \<Rightarrow> string \<Rightarrow> string" where
  "replaceFirst needle r [] = (if needle = [] then r else [])"
| "replaceFirst needle r (c # cs) =
     (if startsWith (c # cs) needle then r @ drop (length needle) (c # cs)
      else c # replaceFirst needle r cs)"

function replaceEvery :: "string \<Rightarrow> string \<Rightarrow> string \<Rightarrow> string" where
  "replaceEvery needle r [] = []"
| "replaceEvery needle r (c # cs) =
     (if needle \<noteq> [] \<and> startsWith (c # cs) needle
      then r @ replaceEvery needle r (drop (length needle) (c # cs))
      else c # replaceEvery needle r cs)"
  by pat_completeness auto
termination
  by (relation "measure (\<lambda>(needle, r, s). length s)") (auto simp: neq_Nil_conv)

definition isWordChar :: "char \<Rightarrow> bool" where
  "isWordChar c = (c \<in> set ''abcdefghijklmnopqrstuvwxyzABCDEFGHIJKLMNOPQRSTUVWXYZ0123456789_'')"

definition literalRegex :: "string \<Rightarrow> regex" where
  "literalRegex lit = \<lparr>rtest = (\<lambda>s. Some (includes_str s lit)), rreplace = (\<lambda>s r. Some (replaceFirst lit r s))\<rparr>"

definition globalLiteralRegex :: "string \<Rightarrow> regex" where
  "globalLiteralRegex lit = \<lparr>rtest = (\<lambda>s. Some (includes_str s lit)), rreplace = (\<lambda>s r. Some (replaceEvery lit r s))\<rparr>"

text \<open>
  The constructor on the sources the examples use: \<^verbatim>\<open>\{name\}\<close> with the \<^verbatim>\<open>g\<close> flag
  for a name of word characters, a pattern of word characters without flags, and
  \<^verbatim>\<open>^\/users\/([^\/]+)$\<close>.  The examples call it on no other source.
\<close>

definition exampleEngine :: regexEngine where
  "exampleEngine src flags =
     (if flags = ''g'' \<and> 4 < length src \<and> take 2 src = bs @ ''{'' \<and> drop (length src - 2) src = bs @ ''}'' \<and>
         list_all isWordChar (take (length src - 4) (drop 2 src))
        then Some (globalLiteralRegex (''{'' @ take (length src - 4) (drop 2 src) @ ''}''))
      else if flags = [] \<and> src \<noteq> [] \<and> list_all isWordChar src then Some (literalRegex src)
      else if flags = [] \<and> src = ''^'' @ bs @ ''/users'' @ bs @ ''/([^'' @ bs @ ''/]+)$'' then Some (anchoredRegex usersAny)
      else None)"


definition idPattern :: endpointPattern where
  "idPattern = \<lparr>ep_pattern = ''id'', ep_replace = ''id''\<rparr>"

text \<open>The custom pattern \<^verbatim>\<open>new RegExp('42')\<close> with template \<^verbatim>\<open>{n}\<close> and priority 100.\<close>

definition partialCustom :: pathPattern where
  "partialCustom = \<lparr>pattern = literalRegex ''42'', template = ''{n}'', priority = Some 100\<rparr>"

section \<open>Properties of normalizePath\<close>

lemma splitOn_not_Nil: "splitOn d s \<noteq> []"
  by (induction s) (auto split: list.splits)

text \<open>The loop of step 1.5 compares segment by segment: a placeholder of the spec path
  accepts anything, any other segment must be equal.\<close>

lemma segmentsMatch_list_all2:
  "segmentsMatch ss ps = list_all2 (\<lambda>s p. isParamSegment s \<or> s = p) ss ps"
  by (induction ss ps rule: segmentsMatch.induct) auto

lemma structuralLoop_first:
  assumes "\<forall>(k, v) \<in> set pre. v = None \<or> length segs \<noteq> length (segments k) \<or> \<not> segmentsMatch (segments k) segs"
    and "length segs = length (segments t)" and "segmentsMatch (segments t) segs"
  shows "structuralLoop segs (pre @ (t, Some item) # post) = Some t"
  using assms by (induction pre) auto

lemma structuralLoop_Some:
  "structuralLoop segs ps = Some t \<Longrightarrow>
     \<exists>item. (t, Some item) \<in> set ps \<and> length segs = length (segments t) \<and> segmentsMatch (segments t) segs"
  by (induction segs ps rule: structuralLoop.induct) (auto split: if_splits)

lemma tryPatterns_find:
  "tryPatterns n ps = (case find (\<lambda>p. matchesPath p n) ps of None \<Rightarrow> None
                        | Some p \<Rightarrow> rreplace (pattern p) n (template p))"
  by (induction ps) (auto simp: matchesPath_def split: option.splits bool.splits)

lemma tryPatterns_Some:
  "tryPatterns n ps = Some r \<Longrightarrow> \<exists>p \<in> set ps. accepts p n r"
  by (induction ps) (auto simp: accepts_def split: option.splits bool.splits if_splits)

lemma find_filter: "find P xs = (case filter P xs of [] \<Rightarrow> None | x # _ \<Rightarrow> Some x)"
  by (induction xs) auto

lemma hd_insort_key:
  "hd (insort_key f x zs) = (if zs = [] \<or> f x \<le> f (hd zs) then x else hd zs)"
  by (cases zs) auto

lemma sort_key_Nil_iff: "sort_key f xs = [] \<longleftrightarrow> xs = []"
  by (metis length_sort list.size(3) length_0_conv)

lemma hd_sort_key_first:
  assumes "\<forall>q \<in> set pre. f c < f q" and "\<forall>q \<in> set post. f c \<le> f q"
  shows "hd (sort_key f (pre @ c # post)) = c"
  using assms
proof (induction pre)
  case Nil
  have "post \<noteq> [] \<Longrightarrow> hd (sort_key f post) \<in> set post"
    by (metis hd_in_set set_sort sort_key_Nil_iff)
  with Nil show ?case
    by (auto simp: hd_insort_key sort_key_Nil_iff sort_key_def[symmetric])
next
  case (Cons a pre)
  then have "hd (sort_key f (pre @ c # post)) = c" by simp
  moreover have "sort_key f (pre @ c # post) \<noteq> []" by (simp add: sort_key_Nil_iff)
  ultimately show ?case using Cons.prems
    by (auto simp: hd_insort_key sort_key_def[symmetric])
qed

lemma find_sort_winner:
  assumes "A c" and "\<forall>q \<in> set pre. A q \<longrightarrow> f c < f q" and "\<forall>q \<in> set post. A q \<longrightarrow> f c \<le> f q"
  shows "find A (sort_key f (pre @ c # post)) = Some c"
proof -
  have "filter A (sort_key f (pre @ c # post)) = sort_key f (filter A pre @ c # filter A post)"
    using assms(1) by (simp add: filter_sort)
  moreover have "hd (sort_key f (filter A pre @ c # filter A post)) = c"
    by (rule hd_sort_key_first) (use assms in auto)
  moreover have "sort_key f (filter A pre @ c # filter A post) \<noteq> []"
    by (simp add: sort_key_Nil_iff)
  ultimately show ?thesis
    by (cases "sort_key f (filter A pre @ c # filter A post)") (auto simp: find_filter)
qed

lemma find_sort_min:
  assumes "find A (sort_key f xs) = Some w"
  shows "w \<in> set xs \<and> A w \<and> (\<forall>q \<in> set xs. A q \<longrightarrow> f w \<le> f q)"
proof -
  from assms obtain ys where L: "sort_key f (filter A xs) = w # ys"
    by (auto simp: find_filter filter_sort split: list.splits)
  have "sorted (map f (sort_key f (filter A xs)))" by (rule sorted_sort_key)
  then have "\<forall>q \<in> set ys. f w \<le> f q" unfolding L by simp
  moreover have "set (w # ys) = {x \<in> set xs. A x}"
    unfolding L[symmetric] by simp
  ultimately show ?thesis by auto
qed

lemma normalizedInputPath_idem:
  "normalizedInputPath (normalizedInputPath p) = normalizedInputPath p"
  by (simp add: normalizedInputPath_def startsWith_def)

lemma normalizedInputPath_slash: "startsWith (normalizedInputPath p) ''/''"
  by (cases p) (auto simp: normalizedInputPath_def startsWith_def)

lemma normalizedInputPath_fix: "startsWith p ''/'' \<Longrightarrow> normalizedInputPath p = p"
  by (simp add: normalizedInputPath_def)

lemma normalizedInputPath_not_Nil: "normalizedInputPath p \<noteq> []"
  by (cases p) (auto simp: normalizedInputPath_def startsWith_def)

lemma normalizePath_unfold:
  "normalizePath path apiSpec pats =
     (if path = [] then []
      else if specHasPath apiSpec (normalizedInputPath path) then normalizedInputPath path
      else (case structuralStep apiSpec (normalizedInputPath path) of
              Some specPath \<Rightarrow> specPath
            | None \<Rightarrow>
                (case tryPatterns (normalizedInputPath path) (sortedPatterns pats) of
                   Some result \<Rightarrow> result
                 | None \<Rightarrow> normalizedInputPath path)))"
  by (cases pats) (auto simp: normalizePath_def Let_def sortedPatterns_def split: option.splits)

lemma normalizePath_normalized:
  "path \<noteq> [] \<Longrightarrow> normalizePath (normalizedInputPath path) apiSpec pats = normalizePath path apiSpec pats"
  by (simp add: normalizePath_def normalizedInputPath_idem normalizedInputPath_not_Nil)

lemma structuralStep_key: "structuralStep apiSpec n = Some t \<Longrightarrow> t \<in> set (specKeys apiSpec)"
  by (auto simp: structuralStep_def specKeys_def split: option.splits dest!: structuralLoop_Some intro: rev_image_eqI)

lemma structuralStep_specHasPath:
  assumes "structuralStep apiSpec n = Some t" and "distinct (specKeys apiSpec)"
  shows "specHasPath apiSpec t"
proof -
  from assms(1) obtain d ps where d: "apiSpec = Some d" "paths d = Some ps"
      "structuralLoop (segments n) ps = Some t"
    by (auto simp: structuralStep_def split: option.splits)
  then obtain item where "(t, Some item) \<in> set ps" by (auto dest: structuralLoop_Some)
  moreover have "distinct (map fst ps)" using assms(2) d by (simp add: specKeys_def)
  ultimately have "map_of ps t = Some (Some item)" by (rule map_of_is_SomeI[rotated])
  then show ?thesis using d by (simp add: specHasPath_def)
qed

text \<open>
  Claim C1, as amended.  For a non-empty path whose segments structurally match the spec
  key \<open>t\<close> (a key with a path item), \<^const>\<open>normalizePath\<close> returns \<open>t\<close> provided the
  slash-normalized path is not itself a spec key and no key declared before \<open>t\<close>
  matches the path structurally: step 1 returns an exact key first, and step 1.5 returns
  the first structural match in declaration order.
\<close>

theorem normalizePath_first_structural_match:
  assumes "path \<noteq> []"
    and "paths d = Some (pre @ (t, Some item) # post)"
    and "structurallyMatches t (normalizedInputPath path)"
    and "\<not> specHasPath (Some d) (normalizedInputPath path)"
    and "\<forall>(k, v) \<in> set pre. v = None \<or> \<not> structurallyMatches k (normalizedInputPath path)"
  shows "normalizePath path (Some d) customPatterns = t"
proof -
  have "structuralLoop (segments (normalizedInputPath path)) (pre @ (t, Some item) # post) = Some t"
    by (rule structuralLoop_first) (use assms(3,5) in \<open>auto simp: structurallyMatches_def\<close>)
  then show ?thesis
    using assms(1,2,4) by (simp add: normalizePath_def structuralStep_def)
qed

text \<open>
  Claim C1, an instance: with the paths \<^verbatim>\<open>/users\<close> and \<^verbatim>\<open>/users/{id}\<close>, the path
  \<^verbatim>\<open>/users/42\<close> normalizes to \<^verbatim>\<open>/users/{id}\<close>.
\<close>

theorem normalizePath_first_structural_match_witness: "normalizePath ''/users/42'' (Some (specWithPaths [''/users'', ''/users/{id}''])) [] = ''/users/{id}''"
proof -
  have 1: "''/users/42'' \<noteq> []" by simp
  have 2: "paths (specWithPaths [''/users'', ''/users/{id}'']) = Some ([(''/users'', Some emptyPathItem)] @ (''/users/{id}'', Some emptyPathItem) # [])"
    by (simp add: specWithPaths_def)
  have 3: "structurallyMatches ''/users/{id}'' (normalizedInputPath ''/users/42'')" by code_simp
  have 4: "\<not> specHasPath (Some (specWithPaths [''/users'', ''/users/{id}''])) (normalizedInputPath ''/users/42'')" by code_simp
  have 5: "\<forall>(k, v) \<in> set [(''/users'', Some emptyPathItem)]. v = None \<or> \<not> structurallyMatches k (normalizedInputPath ''/users/42'')" by code_simp
  show ?thesis using normalizePath_first_structural_match [OF 1 2 3 4 5] .
qed

text \<open>
  Claim C1 as written fails.  \<^verbatim>\<open>/users/me\<close> structurally matches the template
  \<^verbatim>\<open>/users/{id}\<close>, but it is itself a spec key and is returned unchanged; and
  \<^verbatim>\<open>/users/42\<close> structurally matches \<^verbatim>\<open>/users/{id}\<close>, but the key
  \<^verbatim>\<open>/{resource}/{id}\<close> declared before it matches too and is the result.
\<close>

theorem normalizePath_structural_match_counterexample:
  "structurallyMatches ''/users/{id}'' (normalizedInputPath ''/users/me'') \<and>
   normalizePath ''/users/me'' (Some (specWithPaths [''/users/{id}'', ''/users/me''])) [] = ''/users/me'' \<and>
   structurallyMatches ''/users/{id}'' (normalizedInputPath ''/users/42'') \<and>
   normalizePath ''/users/42'' (Some (specWithPaths [''/{resource}/{id}'', ''/users/{id}''])) [] = ''/{resource}/{id}''"
  by code_simp

text \<open>
  Claim C3, as amended.  \<^const>\<open>normalizePath\<close> is a total function: the only calls that
  can throw, \<^verbatim>\<open>test\<close> and \<^verbatim>\<open>replace\<close> of a pattern, are inside the \<^verbatim>\<open>try\<close> of line
  370 and are branches of \<^const>\<open>tryPatterns\<close>.  On the empty path the result is the empty
  string.  On a non-empty path, when no strategy succeeds (no exact key, no structural
  match, no accepting pattern) the result is the slash-normalized path, which starts
  with a slash; and the result starts with a slash whenever every spec key and every
  substitution result of an accepting pattern does.
\<close>

theorem normalizePath_slash_prefix:
  "normalizePath [] apiSpec pats = [] \<and>
   (path \<noteq> [] \<longrightarrow> \<not> specHasPath apiSpec (normalizedInputPath path) \<longrightarrow>
      structuralStep apiSpec (normalizedInputPath path) = None \<longrightarrow>
      tryPatterns (normalizedInputPath path) (sortedPatterns pats) = None \<longrightarrow>
        normalizePath path apiSpec pats = normalizedInputPath path \<and>
        startsWith (normalizePath path apiSpec pats) ''/'') \<and>
   (path \<noteq> [] \<longrightarrow> (\<forall>k \<in> set (specKeys apiSpec). startsWith k ''/'') \<longrightarrow>
      (\<forall>p \<in> set pats. \<forall>r. accepts p (normalizedInputPath path) r \<longrightarrow> startsWith r ''/'') \<longrightarrow>
        startsWith (normalizePath path apiSpec pats) ''/'')"
proof (intro conjI impI)
  show "normalizePath [] apiSpec pats = []" by (simp add: normalizePath_def)
next
  assume "path \<noteq> []" "\<not> specHasPath apiSpec (normalizedInputPath path)"
    "structuralStep apiSpec (normalizedInputPath path) = None"
    "tryPatterns (normalizedInputPath path) (sortedPatterns pats) = None"
  then show n: "normalizePath path apiSpec pats = normalizedInputPath path"
    by (simp add: normalizePath_def Let_def)
  show "startsWith (normalizePath path apiSpec pats) ''/''"
    unfolding n by (rule normalizedInputPath_slash)
next
  let ?n = "normalizedInputPath path"
  assume ne: "path \<noteq> []" and keys: "\<forall>k \<in> set (specKeys apiSpec). startsWith k ''/''"
    and pats: "\<forall>p \<in> set pats. \<forall>r. accepts p ?n r \<longrightarrow> startsWith r ''/''"
  have tp: "startsWith r ''/''" if "tryPatterns ?n (sortedPatterns pats) = Some r" for r
  proof -
    from that obtain p where "p \<in> set (sortedPatterns pats)" "accepts p ?n r"
      by (auto dest: tryPatterns_Some)
    then show ?thesis using pats by (auto simp: sortedPatterns_def)
  qed
  have st: "startsWith t ''/''" if "structuralStep apiSpec ?n = Some t" for t
    using structuralStep_key[OF that] keys by auto
  show "startsWith (normalizePath path apiSpec pats) ''/''"
    using ne tp st normalizedInputPath_slash[of path]
    by (auto simp: normalizePath_unfold split: option.splits)
qed

text \<open>
  Claim C3, instances: \<^verbatim>\<open>health\<close> falls through every strategy and becomes
  \<^verbatim>\<open>/health\<close>; \<^verbatim>\<open>/users/42\<close> is resolved by a pattern whose template starts with a slash.
\<close>

theorem normalizePath_slash_prefix_witness:
  "normalizePath ''health'' (Some (specWithPaths [''/users/{id}''])) [specDerivedUsers] = ''/health'' \<and>
   startsWith (normalizePath ''health'' (Some (specWithPaths [''/users/{id}''])) [specDerivedUsers]) ''/'' \<and>
   startsWith (normalizePath ''/users/42'' None [customUsers]) ''/''"
proof -
  let ?S = "Some (specWithPaths [''/users/{id}''])"
  have 1: "''health'' \<noteq> []" "''/users/42'' \<noteq> []" by simp_all
  have 2: "\<not> specHasPath ?S (normalizedInputPath ''health'')" by code_simp
  have 3: "structuralStep ?S (normalizedInputPath ''health'') = None" by code_simp
  have 4: "tryPatterns (normalizedInputPath ''health'') (sortedPatterns [specDerivedUsers]) = None"
    by code_simp
  have 5: "\<forall>k \<in> set (specKeys None). startsWith k ''/''" by (simp add: specKeys_def)
  have 6: "\<forall>p \<in> set [customUsers]. \<forall>r. accepts p (normalizedInputPath ''/users/42'') r \<longrightarrow> startsWith r ''/''"
    by (auto simp: accepts_def customUsers_def anchoredRegex_def startsWith_def split: if_splits)
  from normalizePath_slash_prefix[of ?S "[specDerivedUsers]" "''health''"] 1 2 3 4
  have a: "normalizePath ''health'' ?S [specDerivedUsers] = normalizedInputPath ''health'' \<and>
        startsWith (normalizePath ''health'' ?S [specDerivedUsers]) ''/''" by blast
  have n: "normalizedInputPath ''health'' = ''/health''" by code_simp
  from normalizePath_slash_prefix[of None "[customUsers]" "''/users/42''"] 1 5 6
  have b: "startsWith (normalizePath ''/users/42'' None [customUsers]) ''/''" by blast
  from a b show ?thesis unfolding n by blast
qed

text \<open>
  Claim C3 as written fails on the empty string, which line 283 returns as the empty
  string: a result that does not start with a slash.
\<close>

theorem normalizePath_empty_path_counterexample: "normalizePath [] None [] = [] \<and> \<not> startsWith (normalizePath [] None []) ''/''"
  by (simp add: normalizePath_def startsWith_def)

text \<open>
  Claim C4, as amended.  When the path is resolved neither by an exact spec key nor by a
  structural match, the result is the substitution of the pattern that wins the
  priority order: a matching pattern all of whose matching predecessors in the
  declared list have a strictly lower priority, and all of whose matching successors
  have a lower or equal priority; and whenever some pattern matches, the result is the
  substitution of a matching pattern whose priority is at least that of every matching
  pattern.  So a matching pattern of priority 100 is preferred to the matching patterns
  of priority 50 and 30, and a pattern of priority 30 never wins over a matching one
  of priority 50 or 100.
\<close>

theorem normalizePath_pattern_priority:
  assumes "path \<noteq> []"
    and "\<not> specHasPath apiSpec (normalizedInputPath path)"
    and "structuralStep apiSpec (normalizedInputPath path) = None"
  shows "(\<forall>pre c post r.
            pats = pre @ c # post \<longrightarrow> accepts c (normalizedInputPath path) r \<longrightarrow>
            (\<forall>q \<in> set pre. matchesPath q (normalizedInputPath path) \<longrightarrow> priorityOf q < priorityOf c) \<longrightarrow>
            (\<forall>q \<in> set post. matchesPath q (normalizedInputPath path) \<longrightarrow> priorityOf q \<le> priorityOf c) \<longrightarrow>
              normalizePath path apiSpec pats = r) \<and>
         (\<forall>q \<in> set pats. matchesPath q (normalizedInputPath path) \<longrightarrow>
            (\<exists>w \<in> set pats. accepts w (normalizedInputPath path) (normalizePath path apiSpec pats) \<and>
               priorityOf q \<le> priorityOf w))"
proof (intro conjI allI impI ballI)
  let ?n = "normalizedInputPath path"
  let ?A = "\<lambda>p. matchesPath p ?n"
  let ?f = "\<lambda>p. - priorityOf p"
  fix pre c post r
  assume p: "pats = pre @ c # post" and acc: "accepts c ?n r"
    and pre: "\<forall>q \<in> set pre. ?A q \<longrightarrow> priorityOf q < priorityOf c"
    and post: "\<forall>q \<in> set post. ?A q \<longrightarrow> priorityOf q \<le> priorityOf c"
  have "?A c" using acc by (simp add: accepts_def matchesPath_def)
  then have "find ?A (sort_key ?f (pre @ c # post)) = Some c"
    by (rule find_sort_winner) (use pre post in auto)
  then have "tryPatterns ?n (sortedPatterns pats) = Some r"
    using acc by (simp add: tryPatterns_find sortedPatterns_def p accepts_def)
  then show "normalizePath path apiSpec pats = r"
    using assms p by (simp add: normalizePath_def)
next
  let ?n = "normalizedInputPath path"
  let ?A = "\<lambda>p. matchesPath p ?n"
  let ?f = "\<lambda>p. - priorityOf p"
  fix q assume q: "q \<in> set pats" "?A q"
  then have "filter ?A (sort_key ?f pats) \<noteq> []"
    by (auto simp: filter_empty_conv)
  then obtain w where w: "find ?A (sort_key ?f pats) = Some w"
    by (cases "filter ?A (sort_key ?f pats)") (auto simp: find_filter)
  note m = find_sort_min[OF w]
  from m obtain r where r: "rreplace (pattern w) ?n (template w) = Some r"
    by (auto simp: matchesPath_def)
  then have "tryPatterns ?n (sortedPatterns pats) = Some r"
    using w by (simp add: tryPatterns_find sortedPatterns_def)
  moreover have "pats \<noteq> []" using q by auto
  ultimately have "normalizePath path apiSpec pats = r"
    using assms by (simp add: normalizePath_def)
  moreover have "accepts w ?n r" using m r by (simp add: accepts_def matchesPath_def)
  moreover have "priorityOf q \<le> priorityOf w" using m q by auto
  ultimately show "\<exists>w \<in> set pats. accepts w ?n (normalizePath path apiSpec pats) \<and> priorityOf q \<le> priorityOf w"
    using m by auto
qed

text \<open>
  Claim C4, an instance: without a spec, a learned pattern (30), a spec-derived pattern
  (50) and a custom pattern (100), declared in this order, all match \<^verbatim>\<open>/users/42\<close>, and
  the result is the substitution of the custom pattern.
\<close>

theorem normalizePath_pattern_priority_witness:
  "normalizePath ''/users/42'' None [learnedUsers, specDerivedUsers, customUsers] = ''/people/{pid}'' \<and>
   (\<exists>w \<in> set [learnedUsers, specDerivedUsers, customUsers].
       accepts w ''/users/42'' ''/people/{pid}'' \<and> priorityOf specDerivedUsers \<le> priorityOf w)"
proof -
  let ?pats = "[learnedUsers, specDerivedUsers, customUsers]"
  have n: "normalizedInputPath ''/users/42'' = ''/users/42''" by code_simp
  have 1: "''/users/42'' \<noteq> []" by simp
  have 2: "\<not> specHasPath None (normalizedInputPath ''/users/42'')" by (simp add: specHasPath_def)
  have 3: "structuralStep None (normalizedInputPath ''/users/42'') = None" by (simp add: structuralStep_def)
  have 4: "?pats = [learnedUsers, specDerivedUsers] @ customUsers # []" by simp
  have 5: "accepts customUsers (normalizedInputPath ''/users/42'') ''/people/{pid}''" by code_simp
  have 6: "\<forall>q \<in> set [learnedUsers, specDerivedUsers]. matchesPath q (normalizedInputPath ''/users/42'') \<longrightarrow> priorityOf q < priorityOf customUsers"
    by (simp add: priorityOf_def learnedUsers_def specDerivedUsers_def customUsers_def)
  have 7: "\<forall>q \<in> set []. matchesPath q (normalizedInputPath ''/users/42'') \<longrightarrow> priorityOf q \<le> priorityOf customUsers"
    by simp
  have 8: "specDerivedUsers \<in> set ?pats" by simp
  have 9: "matchesPath specDerivedUsers (normalizedInputPath ''/users/42'')" by code_simp
  note t = normalizePath_pattern_priority [OF 1 2 3, of ?pats]
  from t 4 5 6 7 have r: "normalizePath ''/users/42'' None ?pats = ''/people/{pid}''" by blast
  from t 8 9 have "\<exists>w \<in> set ?pats. accepts w (normalizedInputPath ''/users/42'')
        (normalizePath ''/users/42'' None ?pats) \<and> priorityOf specDerivedUsers \<le> priorityOf w" by blast
  then show ?thesis unfolding r n using r by blast
qed

text \<open>
  Claim C4 as written fails.  The spec declares \<^verbatim>\<open>/users/{id}\<close>; the pattern generated
  from it has priority 50 and matches \<^verbatim>\<open>/users/42\<close>; the custom pattern
  \<^verbatim>\<open>^\/users\/\d+$\<close> with template \<^verbatim>\<open>/people/{pid}\<close> has priority 100 and matches it
  too.  The result is \<^verbatim>\<open>/users/{id}\<close>: the structural match of step 1.5 returns before
  any pattern is tried.  And where the patterns are tried (no spec), the custom pattern
  \<^verbatim>\<open>42\<close> with template \<^verbatim>\<open>{n}\<close> wins over the spec-derived pattern, but the result is
  its substitution \<^verbatim>\<open>/users/{n}\<close>, not its template.
\<close>

theorem normalizePath_custom_pattern_counterexample:
  "map template (generatePathPatterns exampleEngine (Some (specWithPaths [''/users/{id}''])))
     = [''/users/{id}''] \<and>
   list_all (\<lambda>p. priority p = Some 50 \<and> matchesPath p (normalizedInputPath ''/users/42''))
     (generatePathPatterns exampleEngine (Some (specWithPaths [''/users/{id}'']))) \<and>
   priority customUsers = Some 100 \<and>
   accepts customUsers (normalizedInputPath ''/users/42'') ''/people/{pid}'' \<and>
   normalizePath ''/users/42'' (Some (specWithPaths [''/users/{id}'']))
       (customUsers # generatePathPatterns exampleEngine (Some (specWithPaths [''/users/{id}''])))
     = ''/users/{id}'' \<and>
   matchesPath specDerivedUsers (normalizedInputPath ''/users/42'') \<and>
   matchesPath partialCustom (normalizedInputPath ''/users/42'') \<and>
   template partialCustom = ''{n}'' \<and>
   normalizePath ''/users/42'' None [partialCustom, specDerivedUsers] = ''/users/{n}''"
  by code_simp

text \<open>
  Claim C5, as amended.  Normalizing the result again changes nothing whenever the result
  is the empty string, the slash-normalized input itself, or a spec key that starts with
  a slash; in particular for every path when the pattern list is empty and the spec keys
  all start with a slash.
\<close>

theorem normalizePath_idempotent_on_canonical:
  "(normalizePath path apiSpec pats = [] \<or>
    normalizePath path apiSpec pats = normalizedInputPath path \<or>
    (specHasPath apiSpec (normalizePath path apiSpec pats) \<and>
     startsWith (normalizePath path apiSpec pats) ''/'')
    \<longrightarrow> normalizePath (normalizePath path apiSpec pats) apiSpec pats = normalizePath path apiSpec pats) \<and>
   (distinct (specKeys apiSpec) \<longrightarrow> (\<forall>k \<in> set (specKeys apiSpec). startsWith k ''/'') \<longrightarrow>
      normalizePath (normalizePath path apiSpec []) apiSpec [] = normalizePath path apiSpec [])"
proof -
  have A: "normalizePath r apiSpec ps = r"
    if "r = [] \<or> r = normalizedInputPath path \<and> r = normalizePath path apiSpec ps \<and> path \<noteq> [] \<or>
        (specHasPath apiSpec r \<and> startsWith r ''/'')" for r ps
    using that
  proof (elim disjE conjE)
    assume "r = []" then show ?thesis by (simp add: normalizePath_def)
  next
    assume "r = normalizedInputPath path" "r = normalizePath path apiSpec ps" "path \<noteq> []"
    then show ?thesis using normalizePath_normalized[of path apiSpec ps] by simp
  next
    assume h: "specHasPath apiSpec r" "startsWith r ''/''"
    then have "r \<noteq> []" by (auto simp: startsWith_def)
    then show ?thesis using h by (simp add: normalizePath_def normalizedInputPath_fix)
  qed
  have B: "normalizePath path apiSpec ps = [] \<or> path \<noteq> []" for ps
    by (simp add: normalizePath_def)
  have 1: "normalizePath (normalizePath path apiSpec pats) apiSpec pats = normalizePath path apiSpec pats"
    if "normalizePath path apiSpec pats = [] \<or>
        normalizePath path apiSpec pats = normalizedInputPath path \<or>
        (specHasPath apiSpec (normalizePath path apiSpec pats) \<and>
        startsWith (normalizePath path apiSpec pats) ''/'')"
    using that B[of pats] by (intro A) auto
  have 2: "normalizePath (normalizePath path apiSpec []) apiSpec [] = normalizePath path apiSpec []"
    if dist: "distinct (specKeys apiSpec)" and keys: "\<forall>k \<in> set (specKeys apiSpec). startsWith k ''/''"
  proof (cases "path = []")
    case True then show ?thesis by (simp add: normalizePath_def)
  next
    case False
    let ?n = "normalizedInputPath path"
    show ?thesis
    proof (cases "specHasPath apiSpec ?n")
      case True
      then have "normalizePath path apiSpec [] = ?n" using False by (simp add: normalizePath_def)
      then show ?thesis using False by (intro A) auto
    next
      case nex: False
      show ?thesis
      proof (cases "structuralStep apiSpec ?n")
        case None
        then have "normalizePath path apiSpec [] = ?n" using False nex by (simp add: normalizePath_def)
        then show ?thesis using False by (intro A) auto
      next
        case (Some t)
        then have r: "normalizePath path apiSpec [] = t" using False nex by (simp add: normalizePath_def)
        from Some have "specHasPath apiSpec t \<and> t \<in> set (specKeys apiSpec)"
          using structuralStep_specHasPath[OF Some dist] structuralStep_key[OF Some] by auto
        then show ?thesis unfolding r using keys by (intro A) auto
      qed
    qed
  qed
  show ?thesis using 1 2 by blast
qed

text \<open>
  Claim C5, instances: \<^verbatim>\<open>/users/42\<close> normalizes to the spec key \<^verbatim>\<open>/users/{id}\<close>, a
  fixed point; without patterns \<^verbatim>\<open>orders/7\<close> normalizes to \<^verbatim>\<open>/orders/7\<close>, a fixed point.
\<close>

theorem normalizePath_idempotent_on_canonical_witness:
  "normalizePath ''/users/42'' (Some (specWithPaths [''/users/{id}''])) [customUsers] = ''/users/{id}'' \<and>
   normalizePath (normalizePath ''/users/42'' (Some (specWithPaths [''/users/{id}''])) [customUsers])
      (Some (specWithPaths [''/users/{id}''])) [customUsers] = ''/users/{id}'' \<and>
   normalizePath (normalizePath ''orders/7'' (Some (specWithPaths [''/users/{id}''])) [])
      (Some (specWithPaths [''/users/{id}''])) [] = ''/orders/7''"
proof -
  let ?S = "Some (specWithPaths [''/users/{id}''])"
  have r: "normalizePath ''/users/42'' ?S [customUsers] = ''/users/{id}''" by code_simp
  have h: "specHasPath ?S ''/users/{id}'' \<and> startsWith ''/users/{id}'' ''/''" by code_simp
  have d: "distinct (specKeys ?S)" "\<forall>k \<in> set (specKeys ?S). startsWith k ''/''" by code_simp+
  have o: "normalizePath ''orders/7'' ?S [] = ''/orders/7''" by code_simp
  from normalizePath_idempotent_on_canonical[of "''/users/42''" ?S "[customUsers]"] h
  have 1: "normalizePath (normalizePath ''/users/42'' ?S [customUsers]) ?S [customUsers]
      = normalizePath ''/users/42'' ?S [customUsers]" unfolding r by blast
  from normalizePath_idempotent_on_canonical[of "''orders/7''" ?S "[]"] d
  have 2: "normalizePath (normalizePath ''orders/7'' ?S []) ?S [] = normalizePath ''orders/7'' ?S []"
    by blast
  from r 1 2 o show ?thesis by simp
qed

text \<open>
  Claim C5 as written fails: with the custom patterns \<^verbatim>\<open>^\/a$\<close> to \<^verbatim>\<open>/b\<close> and
  \<^verbatim>\<open>^\/b$\<close> to \<^verbatim>\<open>/c\<close>, the path \<^verbatim>\<open>/a\<close> normalizes to \<^verbatim>\<open>/b\<close>, and \<^verbatim>\<open>/b\<close> to
  \<^verbatim>\<open>/c\<close>.
\<close>

theorem normalizePath_idempotence_counterexample:
  "normalizePath ''/a'' None [exactly ''/a'' ''/b'', exactly ''/b'' ''/c''] = ''/b'' \<and>
   normalizePath (normalizePath ''/a'' None [exactly ''/a'' ''/b'', exactly ''/b'' ''/c'']) None
      [exactly ''/a'' ''/b'', exactly ''/b'' ''/c''] = ''/c''"
  by code_simp

section \<open>Properties of request tracking\<close>

lemma splitOn_space_Cons: "CHR '' '' \<in> set e \<Longrightarrow> \<exists>m p rest. splitOn (CHR '' '') e = m # p # rest"
proof (induction e)
  case Nil then show ?case by simp
next
  case (Cons c e)
  show ?case
  proof (cases "c = CHR '' ''")
    case True
    then show ?thesis using splitOn_not_Nil[of "CHR '' ''" e] by (cases "splitOn (CHR '' '') e") auto
  next
    case False
    with Cons obtain m p rest where "splitOn (CHR '' '') e = m # p # rest" by auto
    then show ?thesis using False by simp
  qed
qed

lemma splitSpace2_path: "CHR '' '' \<in> set e \<Longrightarrow> \<exists>p. snd (splitSpace2 e) = Some p"
  by (drule splitOn_space_Cons) (auto simp: splitSpace2_def)

lemma hd_splitOn: "hd (splitOn d e) = takeWhile (\<lambda>c. c \<noteq> d) e"
  using splitOn_not_Nil by (induction e) (auto split: list.splits)

lemma methodOf_takeWhile: "methodOf e = takeWhile (\<lambda>c. c \<noteq> CHR '' '') e"
  using hd_splitOn[of "CHR '' ''" e] splitOn_not_Nil[of "CHR '' ''" e]
  by (auto simp: methodOf_def splitSpace2_def split: list.splits)

lemma methodOf_no_space: "CHR '' '' \<notin> set (methodOf e)"
  unfolding methodOf_takeWhile by (induction e) auto

lemma takeWhile_method_append:
  "CHR '' '' \<notin> set m \<Longrightarrow> takeWhile (\<lambda>c. c \<noteq> CHR '' '') (m @ '' '' @ rest) = m"
  by (induction m) auto

lemma hasSpace_endpointKey: "CHR '' '' \<in> set (endpointKey m p)"
  by (simp add: endpointKey_def)

lemma endpointMatchesTemplate_Inr:
  assumes "CHR '' '' \<in> set c" and "CHR '' '' \<in> set t"
  shows "\<exists>b. endpointMatchesTemplate c t = Inr b"
  using splitSpace2_path[OF assms(1)] splitSpace2_path[OF assms(2)]
  by (auto simp: endpointMatchesTemplate_def)


lemma endpointsToRemove_filter:
  assumes "\<forall>e \<in> set S. CHR '' '' \<in> set e" and "CHR '' '' \<in> set key"
  shows "endpointsToRemove key S =
           Inr (filter (\<lambda>e. \<not> isTemplated e \<and> endpointMatchesTemplate e key = Inr True) S)"
  using assms(1)
proof (induction S)
  case Nil then show ?case by simp
next
  case (Cons e S)
  then obtain b where "endpointMatchesTemplate e key = Inr b"
    using endpointMatchesTemplate_Inr[of e key] assms(2) by auto
  with Cons show ?case by simp
qed


lemma hasMatchingTemplate_ex:
  assumes "\<forall>e \<in> set S. CHR '' '' \<in> set e" and "CHR '' '' \<in> set key"
  shows "hasMatchingTemplate key S =
           Inr (\<exists>t \<in> set S. isTemplated t \<and> endpointMatchesTemplate key t = Inr True)"
  using assms(1)
proof (induction S)
  case Nil then show ?case by simp
next
  case (Cons e S)
  then obtain b where "endpointMatchesTemplate key e = Inr b"
    using endpointMatchesTemplate_Inr[of key e] assms(2) by auto
  with Cons show ?case by (cases b) auto
qed


lemma foldl_setDelete: "foldl setDelete S xs = filter (\<lambda>e. e \<notin> set xs) S"
  by (induction xs arbitrary: S) (auto simp: setDelete_def intro: filter_cong)

lemma set_setAdd: "set (setAdd S k) = insert k (set S)"
  by (auto simp: setAdd_def)


lemma set_recordHit:
  assumes "\<forall>e \<in> set S. CHR '' '' \<in> set e" and "CHR '' '' \<in> set key"
  shows "set (recordHit S key) =
     (if isTemplated key
      then insert key {e \<in> set S. \<not> (\<not> isTemplated e \<and> endpointMatchesTemplate e key = Inr True)}
      else if (\<exists>t \<in> set S. isTemplated t \<and> endpointMatchesTemplate key t = Inr True) then set S
      else insert key (set S))"
proof -
  have "\<forall>e \<in> set (setAdd S key). CHR '' '' \<in> set e" using assms by (auto simp: set_setAdd)
  note r = endpointsToRemove_filter[OF this assms(2)] hasMatchingTemplate_ex[OF assms]
  show ?thesis
    by (auto simp: recordHit_def r foldl_setDelete set_setAdd split: bool.splits)
qed

lemma recordHit_invariant:
  assumes "dedupInvariant S" and "CHR '' '' \<in> set key"
  shows "dedupInvariant (recordHit S key)"
proof -
  have sp: "\<forall>e \<in> set S. CHR '' '' \<in> set e" using assms(1) by (simp add: dedupInvariant_def)
  note s = set_recordHit[OF sp assms(2)]
  have inv: "\<And>t c. t \<in> set S \<Longrightarrow> c \<in> set S \<Longrightarrow> isTemplated t \<Longrightarrow> \<not> isTemplated c \<Longrightarrow>
      endpointMatchesTemplate c t = Inr False"
    using assms(1) by (simp add: dedupInvariant_def)
  have inr: "\<And>c t. CHR '' '' \<in> set c \<Longrightarrow> CHR '' '' \<in> set t \<Longrightarrow>
      endpointMatchesTemplate c t \<noteq> Inr True \<Longrightarrow> endpointMatchesTemplate c t = Inr False"
    using endpointMatchesTemplate_Inr by (metis (full_types))
  show ?thesis
    unfolding dedupInvariant_def
  proof (intro conjI ballI impI)
    fix e assume "e \<in> set (recordHit S key)"
    then show "CHR '' '' \<in> set e" using sp assms(2) by (auto simp: s split: if_splits)
  next
    fix t c assume t: "t \<in> set (recordHit S key)" and c: "c \<in> set (recordHit S key)"
      and tt: "isTemplated t" and cc: "\<not> isTemplated c"
    show "endpointMatchesTemplate c t = Inr False"
    proof (cases "isTemplated key")
      case True
      with c cc have cS: "c \<in> set S" and cm: "endpointMatchesTemplate c key \<noteq> Inr True"
        by (auto simp: s)
      show ?thesis
      proof (cases "t = key")
        case True
        then show ?thesis using inr[OF _ assms(2) cm] cS sp by auto
      next
        case False
        then have "t \<in> set S" using t \<open>isTemplated key\<close> by (auto simp: s)
        then show ?thesis using inv cS tt cc by blast
      qed
    next
      case False
      then have tS: "t \<in> set S" using t tt by (auto simp: s split: if_splits)
      show ?thesis
      proof (cases "c \<in> set S")
        case True then show ?thesis using inv tS tt cc by blast
      next
        case nin: False
        then have ck: "c = key" and nm: "\<not> (\<exists>t \<in> set S. isTemplated t \<and> endpointMatchesTemplate key t = Inr True)"
          using c False by (auto simp: s split: if_splits)
        then have "endpointMatchesTemplate key t \<noteq> Inr True" using tS tt by blast
        then show ?thesis using inr[OF assms(2) _] tS sp ck by auto
      qed
    qed
  qed
qed

lemma trackAll_invariant_gen:
  "dedupInvariant S \<Longrightarrow> dedupInvariant (foldl trackRequest S observations)"
  by (induction observations arbitrary: S)
     (auto simp: trackRequest_def intro: recordHit_invariant hasSpace_endpointKey)



text \<open>
  Claim C2.  After any sequence of observations, starting from the empty set, no
  templated key and concrete key of the hit set match structurally:
  \<^verbatim>\<open>endpointMatchesTemplate\<close> returns false on every such pair, which for two keys of the
  same method says that the segment counts differ or a literal segment differs.  Templated
  and concrete are the interceptor's own tests.  Recording \<^verbatim>\<open>GET /users/{id}\<close> then
  \<^verbatim>\<open>GET /users/42\<close> leaves exactly \<^verbatim>\<open>GET /users/{id}\<close>, and so does the reverse order.
\<close>

theorem hitEndpoints_dedup_invariant:
  "(\<forall>t \<in> set (trackAll observations). \<forall>c \<in> set (trackAll observations).
      isTemplated t \<longrightarrow> \<not> isTemplated c \<longrightarrow> endpointMatchesTemplate c t = Inr False) \<and>
   trackAll [(''GET'', ''/users/{id}''), (''GET'', ''/users/42'')] = [''GET /users/{id}''] \<and>
   trackAll [(''GET'', ''/users/42''), (''GET'', ''/users/{id}'')] = [''GET /users/{id}'']"
proof (intro conjI)
  have "dedupInvariant (trackAll observations)"
    unfolding trackAll_def by (rule trackAll_invariant_gen) (simp add: dedupInvariant_def)
  then show "\<forall>t \<in> set (trackAll observations). \<forall>c \<in> set (trackAll observations).
      isTemplated t \<longrightarrow> \<not> isTemplated c \<longrightarrow> endpointMatchesTemplate c t = Inr False"
    by (simp add: dedupInvariant_def)
  show "trackAll [(''GET'', ''/users/{id}''), (''GET'', ''/users/42'')] = [''GET /users/{id}'']"
    by code_simp
  show "trackAll [(''GET'', ''/users/42''), (''GET'', ''/users/{id}'')] = [''GET /users/{id}'']"
    by code_simp
qed

text \<open>
  Claim C2, an instance: after \<^verbatim>\<open>GET /users/42\<close>, \<^verbatim>\<open>POST /users/41\<close> and
  \<^verbatim>\<open>GET /users/{id}\<close> the set holds a templated and a concrete key, and they do not match.
\<close>

theorem hitEndpoints_dedup_invariant_witness:
  "trackAll [(''GET'', ''/users/42''), (''POST'', ''/users/41''), (''GET'', ''/users/{id}'')]
     = [''POST /users/41'', ''GET /users/{id}''] \<and>
   endpointMatchesTemplate ''POST /users/41'' ''GET /users/{id}'' = Inr False"
proof -
  let ?obs = "[(''GET'', ''/users/42''), (''POST'', ''/users/41''), (''GET'', ''/users/{id}'')]"
  have e: "trackAll ?obs = [''POST /users/41'', ''GET /users/{id}'']" by code_simp
  have t: "isTemplated ''GET /users/{id}''" by code_simp
  have c: "\<not> isTemplated ''POST /users/41''" by code_simp
  from hitEndpoints_dedup_invariant[of ?obs] have "\<forall>t \<in> set (trackAll ?obs). \<forall>c \<in> set (trackAll ?obs).
      isTemplated t \<longrightarrow> \<not> isTemplated c \<longrightarrow> endpointMatchesTemplate c t = Inr False" by (rule conjunct1)
  then have "endpointMatchesTemplate ''POST /users/41'' ''GET /users/{id}'' = Inr False"
    unfolding e using t c by simp
  with e show ?thesis by simp
qed

section \<open>Properties of the report\<close>

lemma map_of_mapSet: "map_of (mapSet m k v) = (map_of m)(k \<mapsto> v)"
  by (induction m) (auto simp: fun_eq_iff)


lemma mapSet_keys: "fst ` set (mapSet m k v) = insert k (fst ` set m)"
proof (induction m)
  case Nil then show ?case by simp
next
  case (Cons a m)
  obtain k' v' where a: "a = (k', v')" by (cases a)
  show ?case unfolding a using Cons by (cases "k' = k") auto
qed

lemma mapHas_map_of: "mapHas m k \<longleftrightarrow> map_of m k \<noteq> None"
  by (simp add: mapHas_def map_of_eq_None_iff)

lemma mapSet_distinct: "distinct (map fst m) \<Longrightarrow> distinct (map fst (mapSet m k v))"
proof (induction m)
  case Nil then show ?case by simp
next
  case (Cons a m)
  obtain k' v' where a: "a = (k', v')" by (cases a)
  show ?case using Cons mapSet_keys[of m k v] unfolding a by (cases "k' = k") force+
qed


























lemma includes_str_char: "includes_str s [c] \<longleftrightarrow> c \<in> set s"
  by (induction s) (auto simp: startsWith_def)

lemma isTemplated_iff: "isTemplated e \<longleftrightarrow> CHR ''{'' \<in> set e \<and> CHR ''}'' \<in> set e"
  by (simp add: isTemplated_def includes_str_char)

lemma replaceParams_id: "CHR ''{'' \<notin> set p \<or> CHR ''}'' \<notin> set p \<Longrightarrow> replaceParams p = p"
proof (induction p rule: replaceParams.induct)
  case 1 then show ?case by simp
next
  case (2 c cs)
  let ?cond = "c = CHR ''{'' \<and> takeWhile (\<lambda>x. x \<noteq> CHR ''}'') cs \<noteq> [] \<and>
         dropWhile (\<lambda>x. x \<noteq> CHR ''}'') cs \<noteq> []"
  have nc: "\<not> ?cond" using "2.prems" by (auto simp: dropWhile_eq_Nil_conv)
  have "CHR ''{'' \<notin> set cs \<or> CHR ''}'' \<notin> set cs" using "2.prems" by auto
  from "2.IH"(2)[OF nc this] have "replaceParams cs = cs" .
  moreover have "replaceParams (c # cs) = c # replaceParams cs"
    by (subst replaceParams.simps(2)) (rule if_not_P[OF nc])
  ultimately show ?case by simp
qed

lemma replaceParams_changed:
  "replaceParams p \<noteq> p \<Longrightarrow> CHR ''{'' \<in> set (replaceParams p) \<and> CHR ''}'' \<in> set (replaceParams p)"
proof (induction p rule: replaceParams.induct)
  case 1 then show ?case by simp
next
  case (2 c cs)
  let ?cond = "c = CHR ''{'' \<and> takeWhile (\<lambda>x. x \<noteq> CHR ''}'') cs \<noteq> [] \<and>
         dropWhile (\<lambda>x. x \<noteq> CHR ''}'') cs \<noteq> []"
  show ?case
  proof (cases ?cond)
    case True
    have "replaceParams (c # cs) =
        ''{PARAM}'' @ replaceParams (tl (dropWhile (\<lambda>x. x \<noteq> CHR ''}'') cs))"
      by (subst replaceParams.simps(2)) (rule if_P[OF True])
    then show ?thesis by simp
  next
    case False
    have e: "replaceParams (c # cs) = c # replaceParams cs"
      by (subst replaceParams.simps(2)) (rule if_not_P[OF False])
    with "2.prems" have "replaceParams cs \<noteq> cs" by simp
    from "2.IH"(2)[OF False this] show ?thesis unfolding e by simp
  qed
qed

lemma key_inj:
  assumes "m @ '' '' @ a = m' @ '' '' @ b" and "CHR '' '' \<notin> set m" and "CHR '' '' \<notin> set m'"
  shows "m = m' \<and> a = b"
proof -
  have "takeWhile (\<lambda>c. c \<noteq> CHR '' '') (m @ '' '' @ a) = m"
    by (rule takeWhile_method_append[OF assms(2)])
  moreover have "takeWhile (\<lambda>c. c \<noteq> CHR '' '') (m' @ '' '' @ b) = m'"
    by (rule takeWhile_method_append[OF assms(3)])
  ultimately have "m = m'" using assms(1) by simp
  then show ?thesis using assms(1) by simp
qed

lemma includes_str_append_left: "includes_str s x \<Longrightarrow> includes_str (pre @ s) x"
  by (induction pre) auto

lemma startsWith_append:
  assumes "startsWith s x"
  shows "startsWith (s @ suf) x"
proof -
  have "length (take (length x) s) = length x" using assms by (simp add: startsWith_def)
  then have "length x \<le> length s" by simp
  then show ?thesis using assms by (simp add: startsWith_def)
qed

lemma includes_str_append_right: "includes_str s x \<Longrightarrow> includes_str (s @ suf) x"
proof (induction s)
  case Nil then show ?case by (cases suf) (auto simp: startsWith_def)
next
  case (Cons c s)
  then show ?case using startsWith_append[of "c # s" x suf] by auto
qed

lemma isMalformed_mono: "isMalformed s \<Longrightarrow> isMalformed (pre @ s @ suf)"
  by (auto simp: isMalformed_def intro: includes_str_append_left includes_str_append_right)

lemma splitOn_decompose:
  "splitOn d e = m # p # rest \<Longrightarrow> \<exists>suf. e = m @ d # p @ suf"
proof (induction e arbitrary: m)
  case Nil then show ?case by simp
next
  case (Cons c e)
  show ?case
  proof (cases "c = d")
    case True
    with Cons.prems have m: "m = []" and s: "splitOn d e = p # rest" by auto
    have "p = takeWhile (\<lambda>c. c \<noteq> d) e" using s hd_splitOn[of d e] by simp
    then have "e = p @ dropWhile (\<lambda>c. c \<noteq> d) e" by simp
    then have "\<exists>suf. e = p @ suf" ..
    then show ?thesis using True m by auto
  next
    case False
    with Cons.prems obtain w where w: "splitOn d e = w # p # rest" and m: "m = c # w"
      by (auto split: list.splits)
    from Cons.IH[OF w] show ?thesis using m by auto
  qed
qed

lemma splitSpace2_decompose:
  assumes "snd (splitSpace2 e) = Some path"
  shows "\<exists>suf. e = methodOf e @ '' '' @ path @ suf"
proof -
  from assms obtain m rest where "splitOn (CHR '' '') e = m # path # rest"
    by (auto simp: splitSpace2_def split: list.splits)
  from splitOn_decompose[OF this] this show ?thesis
    by (auto simp: methodOf_def splitSpace2_def)
qed

lemma normalizedForm_shape:
  assumes "normalizedForm E pats e = Some (k, v)"
  shows "\<exists>np. v = methodOf e @ '' '' @ np \<and> k = methodOf e @ '' '' @ replaceParams np \<and> \<not> isMalformed np"
proof -
  from assms obtain path where p: "\<not> isMalformed e" "snd (splitSpace2 e) = Some path" "path \<noteq> []"
    by (auto simp: normalizedForm_def split: if_splits option.splits)
  from splitSpace2_decompose[OF p(2)] obtain suf where "e = methodOf e @ '' '' @ path @ suf" by auto
  then have "isMalformed path \<Longrightarrow> isMalformed e"
    using isMalformed_mono[of path "methodOf e @ '' ''" suf] by simp
  then have "\<not> isMalformed path" using p(1) by auto
  then show ?thesis using assms p by (auto simp: normalizedForm_def Let_def split: if_splits)
qed

lemma concrete_form_unique:
  assumes "normalizedForm E pats e = Some (k, v)" and "\<not> isTemplated v"
    and "normalizedForm E pats e' = Some (k, v')"
  shows "v' = v"
proof -
  from normalizedForm_shape[OF assms(1)] obtain np where
    np: "v = methodOf e @ '' '' @ np" "k = methodOf e @ '' '' @ replaceParams np" by auto
  from normalizedForm_shape[OF assms(3)] obtain np' where
    np': "v' = methodOf e' @ '' '' @ np'" "k = methodOf e' @ '' '' @ replaceParams np'" by auto
  from np(2) np'(2) have "methodOf e @ '' '' @ replaceParams np = methodOf e' @ '' '' @ replaceParams np'"
    by simp
  from key_inj[OF this methodOf_no_space methodOf_no_space]
  have eq: "methodOf e = methodOf e'" "replaceParams np = replaceParams np'" by simp_all
  have c: "CHR ''{'' \<notin> set np \<or> CHR ''}'' \<notin> set np"
    using assms(2) np(1) by (auto simp: isTemplated_iff)
  then have r: "replaceParams np = np" by (rule replaceParams_id)
  have "replaceParams np' = np'"
    using replaceParams_changed[of np'] c eq(2) r by auto
  then show ?thesis using np np' eq r by simp
qed

lemma normalizeStep_lookup:
  "map_of (normalizeStep E pats m e) k =
     (case normalizedForm E pats e of
        None \<Rightarrow> map_of m k
      | Some (k', v') \<Rightarrow>
          if k' = k \<and> (isTemplated v' \<or> map_of m k = None) then Some v' else map_of m k)"
  by (auto simp: normalizeStep_def map_of_mapSet mapHas_map_of split: option.splits)

lemma normalizeStep_formsOnly:
  "formsOnly E pats m \<Longrightarrow> formsOnly E pats (normalizeStep E pats m e)"
  unfolding formsOnly_def normalizeStep_lookup
  by (auto split: option.splits if_splits)

lemma foldl_formsOnly:
  "formsOnly E pats m \<Longrightarrow> formsOnly E pats (foldl (normalizeStep E pats) m es)"
  by (induction es arbitrary: m) (auto intro: normalizeStep_formsOnly)

lemma normalizeStep_stores:
  assumes "normalizedForm E pats e = Some (k, v)" and "formsOnly E pats m"
  shows "map_of (normalizeStep E pats m e) k = Some v"
proof (cases "isTemplated v \<or> map_of m k = None")
  case True
  then show ?thesis using assms(1) by (auto simp: normalizeStep_lookup)
next
  case False
  then obtain v0 where v0: "map_of m k = Some v0" by auto
  with assms(2) obtain e0 where "normalizedForm E pats e0 = Some (k, v0)" by (auto simp: formsOnly_def)
  from concrete_form_unique[OF assms(1) _ this] False have "v0 = v" by simp
  then show ?thesis using assms(1) v0 False by (auto simp: normalizeStep_lookup)
qed

lemma foldl_keeps:
  assumes "map_of m k = Some v"
    and "\<forall>e' \<in> set post. \<forall>v'. normalizedForm E pats e' = Some (k, v') \<longrightarrow> isTemplated v' \<longrightarrow> v' = v"
  shows "map_of (foldl (normalizeStep E pats) m post) k = Some v"
  using assms
proof (induction post arbitrary: m)
  case Nil then show ?case by simp
next
  case (Cons e post)
  have "map_of (normalizeStep E pats m e) k = Some v"
    using Cons.prems by (auto simp: normalizeStep_lookup split: option.splits)
  from Cons.IH[OF this] Cons.prems(2) show ?case by simp
qed

lemma normalizeStep_distinct:
  "distinct (map fst m) \<Longrightarrow> distinct (map fst (normalizeStep E pats m e))"
  by (auto simp: normalizeStep_def mapSet_distinct split: option.splits)

lemma foldl_distinct:
  "distinct (map fst m) \<Longrightarrow> distinct (map fst (foldl (normalizeStep E pats) m es))"
  by (induction es arbitrary: m) (auto intro: normalizeStep_distinct)

lemma foldl_normalizeStep_append:
  "foldl (normalizeStep E pats) m (pre @ e # post) =
     foldl (normalizeStep E pats) (normalizeStep E pats (foldl (normalizeStep E pats) m pre) e) post"
  by simp

text \<open>
  Claim C7, as amended.  For an endpoint of the input that is not skipped and whose
  pattern substitutions produce a malformed path, the substituted endpoint is not in the
  output, and the endpoint with its pre-substitution path is in the output unless it is
  templated and a later endpoint normalizes to a different templated endpoint with the
  same structure key, which then replaces it in the deduplication map.
\<close>

theorem normalizeEndpoints_rejects_malformed:
  assumes "patterns \<noteq> []"
    and "endpoints = pre @ endpoint # post"
    and "\<not> isMalformed endpoint"
    and "snd (splitSpace2 endpoint) = Some path"
    and "path \<noteq> []"
    and "isMalformed (applyPatterns newRegExp path patterns)"
  shows "methodOf endpoint @ '' '' @ applyPatterns newRegExp path patterns
           \<notin> set (normalizeEndpoints newRegExp endpoints patterns) \<and>
         ((isTemplated (methodOf endpoint @ '' '' @ path) \<longrightarrow>
             (\<forall>e' \<in> set post. \<forall>v'.
                normalizedForm newRegExp patterns e' =
                  Some (methodOf endpoint @ '' '' @ replaceParams path, v') \<longrightarrow>
                isTemplated v' \<longrightarrow> v' = methodOf endpoint @ '' '' @ path))
          \<longrightarrow> methodOf endpoint @ '' '' @ path \<in> set (normalizeEndpoints newRegExp endpoints patterns))"
proof -
  let ?E = newRegExp
  let ?k = "methodOf endpoint @ '' '' @ replaceParams path"
  let ?v = "methodOf endpoint @ '' '' @ path"
  let ?final = "foldl (normalizeStep ?E patterns) [] endpoints"
  have out: "normalizeEndpoints ?E endpoints patterns = map snd ?final"
    using assms(1) by (simp add: normalizeEndpoints_def)
  have fo: "formsOnly ?E patterns ?final"
    by (rule foldl_formsOnly) (simp add: formsOnly_def)
  have form: "normalizedForm ?E patterns endpoint = Some (?k, ?v)"
    using assms(3-6) by (simp add: normalizedForm_def)
  have 1: "methodOf endpoint @ '' '' @ applyPatterns ?E path patterns \<notin> set (map snd ?final)"
  proof
    assume "methodOf endpoint @ '' '' @ applyPatterns ?E path patterns \<in> set (map snd ?final)"
    then obtain k where "(k, methodOf endpoint @ '' '' @ applyPatterns ?E path patterns) \<in> set ?final"
      by auto
    moreover have "distinct (map fst ?final)" by (rule foldl_distinct) simp
    ultimately have "map_of ?final k = Some (methodOf endpoint @ '' '' @ applyPatterns ?E path patterns)"
      by simp
    with fo obtain e where "normalizedForm ?E patterns e =
        Some (k, methodOf endpoint @ '' '' @ applyPatterns ?E path patterns)"
      by (auto simp: formsOnly_def)
    from normalizedForm_shape[OF this] obtain np where
      np: "methodOf endpoint @ '' '' @ applyPatterns ?E path patterns = methodOf e @ '' '' @ np"
      "\<not> isMalformed np" by auto
    from key_inj[OF np(1) methodOf_no_space methodOf_no_space]
    show False using np(2) assms(6) by simp
  qed
  have 2: "?v \<in> set (map snd ?final)"
    if h: "isTemplated ?v \<longrightarrow> (\<forall>e' \<in> set post. \<forall>v'.
                normalizedForm ?E patterns e' = Some (?k, v') \<longrightarrow> isTemplated v' \<longrightarrow> v' = ?v)"
  proof -
    let ?m1 = "foldl (normalizeStep ?E patterns) [] pre"
    have "formsOnly ?E patterns ?m1" by (rule foldl_formsOnly) (simp add: formsOnly_def)
    from normalizeStep_stores[OF form this]
    have st: "map_of (normalizeStep ?E patterns ?m1 endpoint) ?k = Some ?v" .
    have keep: "\<forall>e' \<in> set post. \<forall>v'. normalizedForm ?E patterns e' = Some (?k, v') \<longrightarrow> isTemplated v' \<longrightarrow> v' = ?v"
    proof (cases "isTemplated ?v")
      case True then show ?thesis using h by blast
    next
      case False
      then show ?thesis using concrete_form_unique[OF form False] by blast
    qed
    have "map_of ?final ?k = Some ?v"
      unfolding assms(2) foldl_normalizeStep_append by (rule foldl_keeps[OF st keep])
    then have "(?k, ?v) \<in> set ?final" by (rule map_of_SomeD)
    then show ?thesis by force
  qed
  show ?thesis unfolding out using 1 2 by blast
qed

text \<open>
  Claim C7, an instance: the pattern \<^verbatim>\<open>id\<close> with replacement name \<^verbatim>\<open>id\<close> turns
  \<^verbatim>\<open>/users/{id}\<close> into the malformed \<^verbatim>\<open>/users/{{id}}\<close>; the output holds
  \<^verbatim>\<open>GET /users/{id}\<close> and not the malformed endpoint.
\<close>

theorem normalizeEndpoints_rejects_malformed_witness:
  "''GET /users/{{id}}'' \<notin> set (normalizeEndpoints exampleEngine [''GET /users/{id}'', ''GET /orders/7''] [idPattern]) \<and>
   ''GET /users/{id}'' \<in> set (normalizeEndpoints exampleEngine [''GET /users/{id}'', ''GET /orders/7''] [idPattern])"
proof -
  have 1: "[idPattern] \<noteq> []" by simp
  have 2: "[''GET /users/{id}'', ''GET /orders/7''] = [] @ ''GET /users/{id}'' # [''GET /orders/7'']" by simp
  have 3: "\<not> isMalformed ''GET /users/{id}''" by code_simp
  have 4: "snd (splitSpace2 ''GET /users/{id}'') = Some ''/users/{id}''" by code_simp
  have 5: "''/users/{id}'' \<noteq> []" by simp
  have 6: "isMalformed (applyPatterns exampleEngine ''/users/{id}'' [idPattern])" by code_simp
  have nf: "normalizedForm exampleEngine [idPattern] ''GET /orders/7'' = Some (''GET /orders/7'', ''GET /orders/7'')"
    by code_simp
  have k: "methodOf ''GET /users/{id}'' @ '' '' @ replaceParams ''/users/{id}'' = ''GET /users/{PARAM}''"
    by code_simp
  have v: "methodOf ''GET /users/{id}'' @ '' '' @ ''/users/{id}'' = ''GET /users/{id}''" by code_simp
  have s: "methodOf ''GET /users/{id}'' @ '' '' @ applyPatterns exampleEngine ''/users/{id}'' [idPattern]
      = ''GET /users/{{id}}''" by code_simp
  have keep: "\<forall>e' \<in> set [''GET /orders/7'']. \<forall>v'.
      normalizedForm exampleEngine [idPattern] e' = Some (''GET /users/{PARAM}'', v') \<longrightarrow>
      isTemplated v' \<longrightarrow> v' = ''GET /users/{id}''"
    by (simp add: nf)
  from normalizeEndpoints_rejects_malformed[OF 1 2 3 4 5 6] show ?thesis unfolding k v s using keep by blast
qed

text \<open>
  Claim C7 as written fails.  With the same pattern, \<^verbatim>\<open>GET /users/{id}\<close> and
  \<^verbatim>\<open>GET /users/{userid}\<close> both get a malformed substitution and keep their paths; they
  share the structure key \<^verbatim>\<open>GET /users/{PARAM}\<close>, the second replaces the first in the
  map, and the pre-substitution path of the first is not in the output.
\<close>

theorem normalizeEndpoints_kept_path_counterexample:
  "\<not> isMalformed ''GET /users/{id}'' \<and>
   snd (splitSpace2 ''GET /users/{id}'') = Some ''/users/{id}'' \<and>
   applyPatterns exampleEngine ''/users/{id}'' [idPattern] = ''/users/{{id}}'' \<and>
   isMalformed (applyPatterns exampleEngine ''/users/{id}'' [idPattern]) \<and>
   normalizeEndpoints exampleEngine [''GET /users/{id}'', ''GET /users/{userid}''] [idPattern]
     = [''GET /users/{userid}'']"
  by code_simp




lemma foldl_count_sum:
  "foldl (\<lambda>n record. n + se_count record) n0 rs = n0 + sum_list (map se_count rs)"
  by (induction rs arbitrary: n0) auto

lemma histLookup_histAdd:
  "histLookup (histAdd h entry) s = histLookup h s + (if fst entry = s then snd entry else 0)"
  by (simp add: histLookup_def histAdd_def map_of_mapSet)

lemma histLookup_foldl_histAdd:
  "histLookup (foldl histAdd h es) s = histLookup h s + sum_list (map snd (filter (\<lambda>e. fst e = s) es))"
  by (induction es arbitrary: h) (auto simp: histLookup_histAdd)

lemma histLookup_merge:
  "histLookup (foldl (\<lambda>h record. foldl histAdd h (se_statusCodes record)) h rs) s =
     histLookup h s + sum_list (map (\<lambda>r. sum_list (map snd (filter (\<lambda>e. fst e = s) (se_statusCodes r)))) rs)"
  by (induction rs arbitrary: h) (auto simp: histLookup_foldl_histAdd)

text \<open>
  What the merge of a group does: the counts are summed, the histograms are summed
  entry by entry, and the first templated endpoint of the group is its representative.
\<close>

lemma mergedRecord_sums:
  "se_count (mergedRecord grp) = sum_list (map se_count (g_records grp)) \<and>
   histLookup (se_statusCodes (mergedRecord grp)) s =
     sum_list (map (\<lambda>r. sum_list (map snd (filter (\<lambda>e. fst e = s) (se_statusCodes r)))) (g_records grp)) \<and>
   (\<forall>t. find isTemplated (g_endpoints grp) = Some t \<longrightarrow> targetEndpoint grp = t)"
proof -
  have "histLookup [] s = 0" by (simp add: histLookup_def)
  then show ?thesis
    by (simp add: mergedRecord_def foldl_count_sum histLookup_merge targetEndpoint_def)
qed


section \<open>Properties of generatePathPatterns\<close>







end
